theory Spec2Isabelle
  imports Complex_Main
begin

section \<open>Data model\<close>

text \<open>
  A move is a pair of board coordinates \<open>(row, col)\<close>; the pair \<open>(-1, -1)\<close> is the
  "no move" sentinel of \<open>get_move\<close>.
\<close>

type_synonym move = "int \<times> int"

text \<open>
  Scores are Python floats.  They are idealised here as the reals extended by the two
  infinities \<open>float("-inf")\<close> and \<open>float("inf")\<close>; rounding and NaN are not modelled.
\<close>

datatype score = NegInf | Fin real | PosInf

instantiation score :: linorder
begin

fun less_eq_score :: "score \<Rightarrow> score \<Rightarrow> bool" where
  "less_eq_score NegInf y = True"
| "less_eq_score (Fin x) NegInf = False"
| "less_eq_score (Fin x) (Fin y) = (x \<le> y)"
| "less_eq_score (Fin x) PosInf = True"
| "less_eq_score PosInf NegInf = False"
| "less_eq_score PosInf (Fin y) = False"
| "less_eq_score PosInf PosInf = True"

fun less_score :: "score \<Rightarrow> score \<Rightarrow> bool" where
  "less_score NegInf NegInf = False"
| "less_score NegInf (Fin y) = True"
| "less_score NegInf PosInf = True"
| "less_score (Fin x) NegInf = False"
| "less_score (Fin x) (Fin y) = (x < y)"
| "less_score (Fin x) PosInf = True"
| "less_score PosInf y = False"

instance
proof
  fix x y z :: score
  show "(x < y) = (x \<le> y \<and> \<not> y \<le> x)"
    by (cases x; cases y) auto
  show "x \<le> x"
    by (cases x) auto
  show "x \<le> y \<Longrightarrow> y \<le> z \<Longrightarrow> x \<le> z"
    by (cases x; cases y; cases z) auto
  show "x \<le> y \<Longrightarrow> y \<le> x \<Longrightarrow> x = y"
    by (cases x; cases y) auto
  show "x \<le> y \<or> y \<le> x"
    by (cases x; cases y) auto
qed

end

text \<open>The only exception of the module: \<open>class Timeout(Exception)\<close>.\<close>

datatype error = Timeout

text \<open>
  The board (\<open>isolation.Board\<close>) is owned by an external collaborator; the agent only
  queries it.  The queries used by \<open>game_agent.py\<close> are taken as parameters, over an
  arbitrary type \<open>'g\<close> of game states and an arbitrary type \<open>'p\<close> of player identities.
  \<open>get_legal_moves\<close> has an optional player argument: \<open>None\<close> is the call
  \<open>game.get_legal_moves()\<close>, which enumerates the moves of the active player.
\<close>

record ('g, 'p) board =
  width :: "'g \<Rightarrow> int"
  height :: "'g \<Rightarrow> int"
  is_loser :: "'g \<Rightarrow> 'p \<Rightarrow> bool"
  is_winner :: "'g \<Rightarrow> 'p \<Rightarrow> bool"
  get_opponent :: "'g \<Rightarrow> 'p \<Rightarrow> 'p"
  get_player_location :: "'g \<Rightarrow> 'p \<Rightarrow> move"
  get_legal_moves :: "'g \<Rightarrow> 'p option \<Rightarrow> move list"
  forecast_move :: "'g \<Rightarrow> move \<Rightarrow> 'g"

text \<open>
  The attributes of a \<open>CustomPlayer\<close>.  \<open>ident\<close> is the identity of the object itself,
  the value the methods pass as \<open>self\<close> to the board and to the score function.
  The attribute \<open>score\<close> is the field \<open>score_fn\<close> and the attribute \<open>method\<close> is
  the field \<open>method_name\<close>.  The attribute \<open>time_left\<close> is set by \<open>get_move\<close> and read
  by the searches; it is passed to them as the clock below.
\<close>

record ('g, 'p) CustomPlayer =
  ident :: 'p
  search_depth :: int
  iterative :: bool
  score_fn :: "'g \<Rightarrow> 'p \<Rightarrow> score"
  method_name :: string
  TIMER_THRESHOLD :: real

text \<open>
  \<open>time_left\<close> is a callable whose answer changes from call to call.  A clock gives the
  answer of the \<open>k\<close>-th query; the search state counts the queries made so far, and
  the calls of the score function.
\<close>

type_synonym clock = "nat \<Rightarrow> real"

record search_state =
  time_queries :: nat
  score_calls :: nat

definition query_time :: "search_state \<Rightarrow> search_state" where
  "query_time st = st\<lparr>time_queries := Suc (time_queries st)\<rparr>"

definition call_score :: "search_state \<Rightarrow> search_state" where
  "call_score st = st\<lparr>score_calls := Suc (score_calls st)\<rparr>"

type_synonym search_result = "(error + score \<times> move) \<times> search_state"

section \<open>Minimax\<close>

text \<open>
  \<open>CustomPlayer.minimax\<close>.  The two \<open>for\<close> loops are the functions
  \<open>minimax_max_loop\<close> and \<open>minimax_min_loop\<close> over the moves still to visit, with
  the loop variables \<open>max_score\<close>, \<open>max_move\<close> (\<open>min_score\<close>, \<open>min_move\<close>) as
  arguments.  A \<open>Timeout\<close> raised by a recursive call leaves the loop and the caller.
\<close>

function
  minimax :: "('g, 'p) board \<Rightarrow> ('g, 'p) CustomPlayer \<Rightarrow> clock \<Rightarrow> 'g \<Rightarrow> int \<Rightarrow> bool
    \<Rightarrow> search_state \<Rightarrow> search_result"
and
  minimax_max_loop :: "('g, 'p) board \<Rightarrow> ('g, 'p) CustomPlayer \<Rightarrow> clock \<Rightarrow> 'g \<Rightarrow> int
    \<Rightarrow> move list \<Rightarrow> score \<Rightarrow> move \<Rightarrow> search_state \<Rightarrow> search_result"
and
  minimax_min_loop :: "('g, 'p) board \<Rightarrow> ('g, 'p) CustomPlayer \<Rightarrow> clock \<Rightarrow> 'g \<Rightarrow> int
    \<Rightarrow> move list \<Rightarrow> score \<Rightarrow> move \<Rightarrow> search_state \<Rightarrow> search_result"
where
  "minimax b P clk game depth maximizing_player st =
     (if clk (time_queries st) < TIMER_THRESHOLD P then (Inl Timeout, query_time st)
      else
        let legal_moves = get_legal_moves b game None in
        if depth < 1 \<or> length legal_moves = 0 then
          (Inr (score_fn P game (ident P), get_player_location b game (ident P)),
           call_score (query_time st))
        else if maximizing_player then
          minimax_max_loop b P clk game depth legal_moves NegInf (hd legal_moves) (query_time st)
        else
          minimax_min_loop b P clk game depth legal_moves PosInf (hd legal_moves) (query_time st))"
| "minimax_max_loop b P clk game depth [] max_score max_move st =
     (Inr (max_score, max_move), st)"
| "minimax_max_loop b P clk game depth (m # ms) max_score max_move st =
     (case minimax b P clk (forecast_move b game m) (depth - 1) False st of
        (Inl e, st') \<Rightarrow> (Inl e, st')
      | (Inr (new_score, new_move), st') \<Rightarrow>
          if new_score > max_score
          then minimax_max_loop b P clk game depth ms new_score m st'
          else minimax_max_loop b P clk game depth ms max_score max_move st')"
| "minimax_min_loop b P clk game depth [] min_score min_move st =
     (Inr (min_score, min_move), st)"
| "minimax_min_loop b P clk game depth (m # ms) min_score min_move st =
     (case minimax b P clk (forecast_move b game m) (depth - 1) True st of
        (Inl e, st') \<Rightarrow> (Inl e, st')
      | (Inr (new_score, new_move), st') \<Rightarrow>
          if new_score < min_score
          then minimax_min_loop b P clk game depth ms new_score m st'
          else minimax_min_loop b P clk game depth ms min_score min_move st')"
  by pat_completeness auto
termination
  by (relation "measures
        [\<lambda>x. case x of
               Inl (b, P, clk, game, depth, mx, st) \<Rightarrow> nat depth
             | Inr (Inl (b, P, clk, game, depth, ms, sc, mv, st)) \<Rightarrow> nat (depth - 1)
             | Inr (Inr (b, P, clk, game, depth, ms, sc, mv, st)) \<Rightarrow> nat (depth - 1),
         \<lambda>x. case x of
               Inl (b, P, clk, game, depth, mx, st) \<Rightarrow> 0
             | Inr (Inl (b, P, clk, game, depth, ms, sc, mv, st)) \<Rightarrow> Suc (length ms)
             | Inr (Inr (b, P, clk, game, depth, ms, sc, mv, st)) \<Rightarrow> Suc (length ms)]")
     auto

section \<open>Alpha-beta\<close>

text \<open>
  \<open>CustomPlayer.alphabeta\<close>.  In the maximizing loop \<open>alpha\<close> is a loop variable and
  \<open>beta\<close> is fixed; in the minimizing loop it is the other way round.  The \<open>break\<close>
  returns the pair held at that moment.
\<close>

function
  alphabeta :: "('g, 'p) board \<Rightarrow> ('g, 'p) CustomPlayer \<Rightarrow> clock \<Rightarrow> 'g \<Rightarrow> int
    \<Rightarrow> score \<Rightarrow> score \<Rightarrow> bool \<Rightarrow> search_state \<Rightarrow> search_result"
and
  alphabeta_max_loop :: "('g, 'p) board \<Rightarrow> ('g, 'p) CustomPlayer \<Rightarrow> clock \<Rightarrow> 'g \<Rightarrow> int
    \<Rightarrow> move list \<Rightarrow> score \<Rightarrow> score \<Rightarrow> score \<Rightarrow> move \<Rightarrow> search_state \<Rightarrow> search_result"
and
  alphabeta_min_loop :: "('g, 'p) board \<Rightarrow> ('g, 'p) CustomPlayer \<Rightarrow> clock \<Rightarrow> 'g \<Rightarrow> int
    \<Rightarrow> move list \<Rightarrow> score \<Rightarrow> score \<Rightarrow> score \<Rightarrow> move \<Rightarrow> search_state \<Rightarrow> search_result"
where
  "alphabeta b P clk game depth alpha beta maximizing_player st =
     (if clk (time_queries st) < TIMER_THRESHOLD P then (Inl Timeout, query_time st)
      else
        let legal_moves = get_legal_moves b game None in
        if depth < 1 \<or> length legal_moves = 0 then
          (Inr (score_fn P game (ident P), get_player_location b game (ident P)),
           call_score (query_time st))
        else if maximizing_player then
          alphabeta_max_loop b P clk game depth legal_moves alpha beta NegInf (hd legal_moves)
            (query_time st)
        else
          alphabeta_min_loop b P clk game depth legal_moves alpha beta PosInf (hd legal_moves)
            (query_time st))"
| "alphabeta_max_loop b P clk game depth [] alpha beta max_score max_move st =
     (Inr (max_score, max_move), st)"
| "alphabeta_max_loop b P clk game depth (m # ms) alpha beta max_score max_move st =
     (case alphabeta b P clk (forecast_move b game m) (depth - 1) alpha beta False st of
        (Inl e, st') \<Rightarrow> (Inl e, st')
      | (Inr (new_score, new_move), st') \<Rightarrow>
          let max_score' = (if new_score > max_score then new_score else max_score);
              max_move' = (if new_score > max_score then m else max_move);
              alpha' = max alpha max_score'
          in if beta \<le> alpha' then (Inr (max_score', max_move'), st')
             else alphabeta_max_loop b P clk game depth ms alpha' beta max_score' max_move' st')"
| "alphabeta_min_loop b P clk game depth [] alpha beta min_score min_move st =
     (Inr (min_score, min_move), st)"
| "alphabeta_min_loop b P clk game depth (m # ms) alpha beta min_score min_move st =
     (case alphabeta b P clk (forecast_move b game m) (depth - 1) alpha beta True st of
        (Inl e, st') \<Rightarrow> (Inl e, st')
      | (Inr (new_score, new_move), st') \<Rightarrow>
          let min_score' = (if new_score < min_score then new_score else min_score);
              min_move' = (if new_score < min_score then m else min_move);
              beta' = min beta min_score'
          in if beta' \<le> alpha then (Inr (min_score', min_move'), st')
             else alphabeta_min_loop b P clk game depth ms alpha beta' min_score' min_move' st')"
  by pat_completeness auto
termination
  by (relation "measures
        [\<lambda>x. case x of
               Inl (b, P, clk, game, depth, al, be, mx, st) \<Rightarrow> nat depth
             | Inr (Inl (b, P, clk, game, depth, ms, al, be, sc, mv, st)) \<Rightarrow> nat (depth - 1)
             | Inr (Inr (b, P, clk, game, depth, ms, al, be, sc, mv, st)) \<Rightarrow> nat (depth - 1),
         \<lambda>x. case x of
               Inl (b, P, clk, game, depth, al, be, mx, st) \<Rightarrow> 0
             | Inr (Inl (b, P, clk, game, depth, ms, al, be, sc, mv, st)) \<Rightarrow> Suc (length ms)
             | Inr (Inr (b, P, clk, game, depth, ms, al, be, sc, mv, st)) \<Rightarrow> Suc (length ms)]")
     auto

section \<open>The heuristic\<close>

text \<open>
  \<open>diff_distance_from_mid\<close>: \<open>//\<close> is floor division on Python ints, which is \<open>div\<close>
  on \<open>int\<close>; \<open>math.pow(x, 2)\<close> and \<open>math.sqrt\<close> are taken over the reals.
\<close>

definition diff_distance_from_mid :: "('g, 'p) board \<Rightarrow> 'g \<Rightarrow> 'p \<Rightarrow> real" where
  "diff_distance_from_mid b game player =
     (let mid_row = width b game div 2;
          mid_col = height b game div 2;
          (own_row, own_col) = get_player_location b game player;
          own_row_diff = (real_of_int (own_row - mid_row))\<^sup>2;
          own_col_diff = (real_of_int (own_col - mid_col))\<^sup>2;
          (opp_row, opp_col) = get_player_location b game (get_opponent b game player);
          opp_row_diff = (real_of_int (opp_row - mid_row))\<^sup>2;
          opp_col_diff = (real_of_int (opp_col - mid_col))\<^sup>2;
          own_moves = int (length (get_legal_moves b game (Some player)));
          opp_moves = int (length (get_legal_moves b game (Some (get_opponent b game player))));
          weight = sqrt (opp_row_diff + opp_col_diff) - sqrt (own_row_diff + own_col_diff)
      in real_of_int (own_moves - opp_moves) + weight)"

definition custom_score :: "('g, 'p) board \<Rightarrow> 'g \<Rightarrow> 'p \<Rightarrow> score" where
  "custom_score b game player =
     (if is_loser b game player then NegInf
      else if is_winner b game player then PosInf
      else Fin (diff_distance_from_mid b game player))"

section \<open>The player and its driver\<close>

text \<open>
  \<open>CustomPlayer.__init__\<close> stores its arguments; it has no \<open>raise\<close>.  The first
  argument is the identity of the object being constructed.
\<close>

definition CustomPlayer_init ::
  "'p \<Rightarrow> int \<Rightarrow> ('g \<Rightarrow> 'p \<Rightarrow> score) \<Rightarrow> bool \<Rightarrow> string \<Rightarrow> real \<Rightarrow> ('g, 'p) CustomPlayer" where
  "CustomPlayer_init self depth sf iter meth timeout =
     \<lparr>ident = self, search_depth = depth, iterative = iter, score_fn = sf,
      method_name = meth, TIMER_THRESHOLD = timeout\<rparr>"

text \<open>
  The \<open>if self.method == 'minimax': ... elif self.method == 'alphabeta': ...\<close> statement
  that \<open>get_move\<close> holds twice, once per mode, with the depth as its only difference.
  It assigns \<open>score, move\<close> from the chosen search; with any other method name neither
  branch is taken and the pair keeps its value.
\<close>

definition call_method :: "('g, 'p) board \<Rightarrow> ('g, 'p) CustomPlayer \<Rightarrow> clock \<Rightarrow> 'g \<Rightarrow> int
    \<Rightarrow> score \<Rightarrow> move \<Rightarrow> search_state \<Rightarrow> search_result" where
  "call_method b P clk game depth score move st =
     (if method_name P = ''minimax'' then minimax b P clk game depth True st
      else if method_name P = ''alphabeta'' then alphabeta b P clk game depth NegInf PosInf True st
      else (Inr (score, move), st))"

text \<open>
  The \<open>while True\<close> loop of iterative deepening, left only by \<open>Timeout\<close>.  It need not
  terminate, so it is a partial function: \<open>None\<close> is a loop that runs forever.
\<close>

partial_function (option) iterative_deepening ::
  "('g, 'p) board \<Rightarrow> ('g, 'p) CustomPlayer \<Rightarrow> clock \<Rightarrow> 'g \<Rightarrow> int \<Rightarrow> score \<Rightarrow> move
    \<Rightarrow> search_state \<Rightarrow> (move \<times> search_state) option" where
  "iterative_deepening b P clk game depth_counter score move st =
     (case call_method b P clk game depth_counter score move st of
        (Inl e, st') \<Rightarrow> Some (move, st')
      | (Inr (score', move'), st') \<Rightarrow>
          iterative_deepening b P clk game (depth_counter + 1) score' move' st')"

text \<open>
  \<open>CustomPlayer.get_move\<close>, with the clock for its argument \<open>time_left\<close>.  The result
  is the move returned and the final counters, or \<open>None\<close> when the call never returns.
\<close>

definition get_move :: "('g, 'p) board \<Rightarrow> ('g, 'p) CustomPlayer \<Rightarrow> 'g \<Rightarrow> move list \<Rightarrow> clock
    \<Rightarrow> search_state \<Rightarrow> (move \<times> search_state) option" where
  "get_move b P game legal_moves clk st =
     (if legal_moves = [] then Some ((-1, -1), st)
      else
        let move = hd legal_moves;
            score = score_fn P game (ident P);
            st0 = call_score st
        in if iterative P then iterative_deepening b P clk game 1 score move st0
           else
             case call_method b P clk game (search_depth P) score move st0 of
               (Inl e, st') \<Rightarrow> Some (move, st')
             | (Inr (score', move'), st') \<Rightarrow> Some (move', st'))"

section \<open>Searches that run to completion\<close>

text \<open>
  The value of a search that is never cancelled: the recursion of \<open>minimax\<close> and of
  \<open>alphabeta\<close> once more, without the clock and the counters.  These functions serve
  the proofs: a call of the search that returns a result returns this one, and a call
  under a clock that never falls below the threshold returns.
\<close>

function
  minimax_run :: "('g, 'p) board \<Rightarrow> ('g, 'p) CustomPlayer \<Rightarrow> 'g \<Rightarrow> int \<Rightarrow> bool
    \<Rightarrow> score \<times> move"
and
  minimax_max_run :: "('g, 'p) board \<Rightarrow> ('g, 'p) CustomPlayer \<Rightarrow> 'g \<Rightarrow> int
    \<Rightarrow> move list \<Rightarrow> score \<Rightarrow> move \<Rightarrow> score \<times> move"
and
  minimax_min_run :: "('g, 'p) board \<Rightarrow> ('g, 'p) CustomPlayer \<Rightarrow> 'g \<Rightarrow> int
    \<Rightarrow> move list \<Rightarrow> score \<Rightarrow> move \<Rightarrow> score \<times> move"
where
  "minimax_run b P game depth maximizing_player =
     (let legal_moves = get_legal_moves b game None in
      if depth < 1 \<or> length legal_moves = 0 then
        (score_fn P game (ident P), get_player_location b game (ident P))
      else if maximizing_player then
        minimax_max_run b P game depth legal_moves NegInf (hd legal_moves)
      else
        minimax_min_run b P game depth legal_moves PosInf (hd legal_moves))"
| "minimax_max_run b P game depth [] max_score max_move = (max_score, max_move)"
| "minimax_max_run b P game depth (m # ms) max_score max_move =
     (let new_score = fst (minimax_run b P (forecast_move b game m) (depth - 1) False) in
      if new_score > max_score
      then minimax_max_run b P game depth ms new_score m
      else minimax_max_run b P game depth ms max_score max_move)"
| "minimax_min_run b P game depth [] min_score min_move = (min_score, min_move)"
| "minimax_min_run b P game depth (m # ms) min_score min_move =
     (let new_score = fst (minimax_run b P (forecast_move b game m) (depth - 1) True) in
      if new_score < min_score
      then minimax_min_run b P game depth ms new_score m
      else minimax_min_run b P game depth ms min_score min_move)"
  by pat_completeness auto
termination
  by (relation "measures
        [\<lambda>x. case x of
               Inl (b, P, game, depth, mx) \<Rightarrow> nat depth
             | Inr (Inl (b, P, game, depth, ms, sc, mv)) \<Rightarrow> nat (depth - 1)
             | Inr (Inr (b, P, game, depth, ms, sc, mv)) \<Rightarrow> nat (depth - 1),
         \<lambda>x. case x of
               Inl (b, P, game, depth, mx) \<Rightarrow> 0
             | Inr (Inl (b, P, game, depth, ms, sc, mv)) \<Rightarrow> Suc (length ms)
             | Inr (Inr (b, P, game, depth, ms, sc, mv)) \<Rightarrow> Suc (length ms)]")
     auto

function
  alphabeta_run :: "('g, 'p) board \<Rightarrow> ('g, 'p) CustomPlayer \<Rightarrow> 'g \<Rightarrow> int
    \<Rightarrow> score \<Rightarrow> score \<Rightarrow> bool \<Rightarrow> score \<times> move"
and
  alphabeta_max_run :: "('g, 'p) board \<Rightarrow> ('g, 'p) CustomPlayer \<Rightarrow> 'g \<Rightarrow> int
    \<Rightarrow> move list \<Rightarrow> score \<Rightarrow> score \<Rightarrow> score \<Rightarrow> move \<Rightarrow> score \<times> move"
and
  alphabeta_min_run :: "('g, 'p) board \<Rightarrow> ('g, 'p) CustomPlayer \<Rightarrow> 'g \<Rightarrow> int
    \<Rightarrow> move list \<Rightarrow> score \<Rightarrow> score \<Rightarrow> score \<Rightarrow> move \<Rightarrow> score \<times> move"
where
  "alphabeta_run b P game depth alpha beta maximizing_player =
     (let legal_moves = get_legal_moves b game None in
      if depth < 1 \<or> length legal_moves = 0 then
        (score_fn P game (ident P), get_player_location b game (ident P))
      else if maximizing_player then
        alphabeta_max_run b P game depth legal_moves alpha beta NegInf (hd legal_moves)
      else
        alphabeta_min_run b P game depth legal_moves alpha beta PosInf (hd legal_moves))"
| "alphabeta_max_run b P game depth [] alpha beta max_score max_move = (max_score, max_move)"
| "alphabeta_max_run b P game depth (m # ms) alpha beta max_score max_move =
     (let new_score = fst (alphabeta_run b P (forecast_move b game m) (depth - 1) alpha beta False);
          max_score' = (if new_score > max_score then new_score else max_score);
          max_move' = (if new_score > max_score then m else max_move);
          alpha' = max alpha max_score'
      in if beta \<le> alpha' then (max_score', max_move')
         else alphabeta_max_run b P game depth ms alpha' beta max_score' max_move')"
| "alphabeta_min_run b P game depth [] alpha beta min_score min_move = (min_score, min_move)"
| "alphabeta_min_run b P game depth (m # ms) alpha beta min_score min_move =
     (let new_score = fst (alphabeta_run b P (forecast_move b game m) (depth - 1) alpha beta True);
          min_score' = (if new_score < min_score then new_score else min_score);
          min_move' = (if new_score < min_score then m else min_move);
          beta' = min beta min_score'
      in if beta' \<le> alpha then (min_score', min_move')
         else alphabeta_min_run b P game depth ms alpha beta' min_score' min_move')"
  by pat_completeness auto
termination
  by (relation "measures
        [\<lambda>x. case x of
               Inl (b, P, game, depth, al, be, mx) \<Rightarrow> nat depth
             | Inr (Inl (b, P, game, depth, ms, al, be, sc, mv)) \<Rightarrow> nat (depth - 1)
             | Inr (Inr (b, P, game, depth, ms, al, be, sc, mv)) \<Rightarrow> nat (depth - 1),
         \<lambda>x. case x of
               Inl (b, P, game, depth, al, be, mx) \<Rightarrow> 0
             | Inr (Inl (b, P, game, depth, ms, al, be, sc, mv)) \<Rightarrow> Suc (length ms)
             | Inr (Inr (b, P, game, depth, ms, al, be, sc, mv)) \<Rightarrow> Suc (length ms)]")
     auto

text \<open>
  A clock that answers every query with the same time, the one that always answers
  with the threshold of the player (so never falls below it), and the counters before
  any call.
\<close>

definition steady :: "real \<Rightarrow> clock" where
  "steady t = (\<lambda>k. t)"

definition unhurried :: "('g, 'p) CustomPlayer \<Rightarrow> clock" where
  "unhurried P = steady (TIMER_THRESHOLD P)"

definition fresh :: search_state where
  "fresh = \<lparr>time_queries = 0, score_calls = 0\<rparr>"

text \<open>
  The score that the recursive call of \<open>minimax\<close> on a state returns when it is not
  cancelled.
\<close>

definition minimax_score :: "('g, 'p) board \<Rightarrow> ('g, 'p) CustomPlayer \<Rightarrow> 'g \<Rightarrow> int \<Rightarrow> bool
    \<Rightarrow> score" where
  "minimax_score b P game depth maximizing_player =
     fst (projr (fst (minimax b P (unhurried P) game depth maximizing_player fresh)))"

section \<open>Completed iterations of the driver\<close>


section \<open>The heuristic as the specification words it\<close>

text \<open>
  The geometric center of a board of \<open>w\<close> columns and \<open>h\<close> rows, in the coordinates
  of the cells (rows \<open>0 .. h - 1\<close>, columns \<open>0 .. w - 1\<close>), as a \<open>(row, col)\<close> pair.
\<close>

definition board_center :: "int \<Rightarrow> int \<Rightarrow> real \<times> real" where
  "board_center w h = ((real_of_int h - 1) / 2, (real_of_int w - 1) / 2)"

definition euclidean_distance :: "real \<times> real \<Rightarrow> real \<times> real \<Rightarrow> real" where
  "euclidean_distance p q = sqrt ((fst p - fst q)\<^sup>2 + (snd p - snd q)\<^sup>2)"

definition cell :: "move \<Rightarrow> real \<times> real" where
  "cell p = (real_of_int (fst p), real_of_int (snd p))"

text \<open>
  \<open>score = mobility_term + positional_term\<close> of the specification, for a center \<open>c\<close>:
  the difference of the numbers of legal moves, plus the distance of the opponent from
  \<open>c\<close> minus the distance of the player from \<open>c\<close>.
\<close>

definition heuristic_about :: "real \<times> real \<Rightarrow> ('g, 'p) board \<Rightarrow> 'g \<Rightarrow> 'p \<Rightarrow> real" where
  "heuristic_about c b game player =
     (real_of_int (int (length (get_legal_moves b game (Some player))))
        - real_of_int (int (length (get_legal_moves b game (Some (get_opponent b game player))))))
     + (euclidean_distance (cell (get_player_location b game (get_opponent b game player))) c
        - euclidean_distance (cell (get_player_location b game player)) c)"

section \<open>Two concrete boards\<close>

text \<open>
  A game given as a finite tree: every node holds the location of the agent, the value
  the score function gives the node, and the legal moves with the states they lead to.
\<close>

datatype toy = Toy (toy_location: move) (toy_value: score) (toy_moves: "(move \<times> toy) list")

definition toy_board :: "(toy, unit) board" where
  "toy_board =
     \<lparr>width = (\<lambda>g. 7), height = (\<lambda>g. 7),
      is_loser = (\<lambda>g p. False), is_winner = (\<lambda>g p. False),
      get_opponent = (\<lambda>g p. p),
      get_player_location = (\<lambda>g p. toy_location g),
      get_legal_moves = (\<lambda>g p. map fst (toy_moves g)),
      forecast_move = (\<lambda>g m. case map_of (toy_moves g) m of Some t \<Rightarrow> t | None \<Rightarrow> g)\<rparr>"

definition toy_player :: "int \<Rightarrow> bool \<Rightarrow> string \<Rightarrow> real \<Rightarrow> (toy, unit) CustomPlayer" where
  "toy_player depth iter meth timeout =
     CustomPlayer_init () depth (\<lambda>g p. toy_value g) iter meth timeout"

definition toy_leaf :: "real \<Rightarrow> toy" where
  "toy_leaf v = Toy (6, 6) (Fin v) []"

definition toy_game :: toy where
  "toy_game =
     Toy (3, 3) (Fin 0)
       [((0, 0), Toy (0, 0) (Fin 1) [((1, 0), toy_leaf 3), ((1, 1), toy_leaf 5)]),
        ((0, 1), Toy (0, 1) (Fin 2) [((2, 0), toy_leaf 2), ((2, 1), toy_leaf 9)])]"

text \<open>A clock that answers the first \<open>n\<close> queries with 100 and every later one with 0.\<close>

definition expiring :: "nat \<Rightarrow> clock" where
  "expiring n = (\<lambda>k. if k < n then 100 else 0)"

text \<open>
  A square board of a given side with the two players \<open>True\<close> and \<open>False\<close>, each
  with a location, a list of legal moves and a status.
\<close>

record grid =
  side :: int
  location_of :: "bool \<Rightarrow> move"
  moves_of :: "bool \<Rightarrow> move list"
  lost :: "bool \<Rightarrow> bool"
  won :: "bool \<Rightarrow> bool"

definition grid_board :: "(grid, bool) board" where
  "grid_board =
     \<lparr>width = side, height = side,
      is_loser = lost, is_winner = won,
      get_opponent = (\<lambda>g p. \<not> p),
      get_player_location = location_of,
      get_legal_moves = (\<lambda>g p. case p of None \<Rightarrow> moves_of g True | Some q \<Rightarrow> moves_of g q),
      forecast_move = (\<lambda>g m. g)\<rparr>"

definition grid_game :: "int \<Rightarrow> move \<Rightarrow> move \<Rightarrow> bool \<Rightarrow> bool \<Rightarrow> grid" where
  "grid_game n own opp l w =
     \<lparr>side = n,
      location_of = (\<lambda>p. if p then own else opp),
      moves_of = (\<lambda>p. if p then [(0, 0), (0, 1)] else [(1, 0)]),
      lost = (\<lambda>p. p \<and> l), won = (\<lambda>p. p \<and> w)\<rparr>"

section \<open>The relation between an alpha-beta score and the minimax score\<close>

text \<open>The bounds that a completed alpha-beta search gives on the minimax value.\<close>

definition bounds :: "score \<Rightarrow> score \<Rightarrow> score \<Rightarrow> score \<Rightarrow> bool" where
  "bounds alpha beta v w \<longleftrightarrow>
     (v \<le> alpha \<longrightarrow> w \<le> v) \<and> (alpha < v \<and> v < beta \<longrightarrow> w = v) \<and> (beta \<le> v \<longrightarrow> v \<le> w)"

section \<open>Auxiliary facts\<close>

text \<open>
  The equations of the four search functions are unfolded by hand, one node at a time.
\<close>

declare minimax.simps [simp del] alphabeta.simps [simp del]
  minimax_run.simps [simp del] alphabeta_run.simps [simp del]

subsection \<open>The order of scores\<close>

lemma score_bounds [simp]: "NegInf \<le> (x::score)" "x \<le> PosInf" "\<not> x < NegInf" "\<not> PosInf < x"
  by (cases x; simp)+

lemma score_bounds_eq [simp]: "(x \<le> NegInf) = (x = NegInf)" "(PosInf \<le> x) = (x = PosInf)"
  by (cases x; simp)+

subsection \<open>A search that returns a result returns its completed run\<close>

text \<open>
  The facts about a search are proved by induction on the depth; inside one depth the
  loop is handled by induction on the moves left, from the fact for \<open>depth - 1\<close>.
\<close>

lemma minimax_max_loop_sound:
  assumes "\<And>g st r st'. minimax b P clk g (depth - 1) False st = (Inr r, st')
             \<Longrightarrow> minimax_run b P g (depth - 1) False = r"
  shows "minimax_max_loop b P clk game depth ms sc mv st = (Inr r, st')
           \<Longrightarrow> r = minimax_max_run b P game depth ms sc mv"
proof (induction ms arbitrary: sc mv st)
  case Nil
  then show ?case by simp
next
  case (Cons m ms)
  then show ?case
    by (cases m) (auto simp: Let_def split: prod.splits sum.splits if_splits dest!: assms)
qed

lemma minimax_min_loop_sound:
  assumes "\<And>g st r st'. minimax b P clk g (depth - 1) True st = (Inr r, st')
             \<Longrightarrow> minimax_run b P g (depth - 1) True = r"
  shows "minimax_min_loop b P clk game depth ms sc mv st = (Inr r, st')
           \<Longrightarrow> r = minimax_min_run b P game depth ms sc mv"
proof (induction ms arbitrary: sc mv st)
  case Nil
  then show ?case by simp
next
  case (Cons m ms)
  then show ?case
    by (cases m) (auto simp: Let_def split: prod.splits sum.splits if_splits dest!: assms)
qed

lemma minimax_sound:
  "minimax b P clk game depth mx st = (Inr r, st') \<Longrightarrow> r = minimax_run b P game depth mx"
proof (induction "nat depth" arbitrary: depth game mx st r st' rule: less_induct)
  case less
  show ?case
  proof (cases "depth < 1 \<or> get_legal_moves b game None = []")
    case True
    with less.prems show ?thesis
      by (auto simp: minimax.simps minimax_run.simps split: if_splits)
  next
    case False
    then have d: "nat (depth - 1) < nat depth" by simp
    have ih: "\<And>g mx st r st'. minimax b P clk g (depth - 1) mx st = (Inr r, st')
             \<Longrightarrow> minimax_run b P g (depth - 1) mx = r"
      using less.hyps [OF d] by metis
    from less.prems False show ?thesis
      by (auto simp: minimax.simps [of _ _ _ game] minimax_run.simps [of _ _ game] Let_def
          split: if_splits
          intro: minimax_max_loop_sound [OF ih] minimax_min_loop_sound [OF ih])
  qed
qed

lemma alphabeta_max_loop_sound:
  assumes "\<And>g al be st r st'. alphabeta b P clk g (depth - 1) al be False st = (Inr r, st')
             \<Longrightarrow> alphabeta_run b P g (depth - 1) al be False = r"
  shows "alphabeta_max_loop b P clk game depth ms al be sc mv st = (Inr r, st')
           \<Longrightarrow> r = alphabeta_max_run b P game depth ms al be sc mv"
proof (induction ms arbitrary: al sc mv st)
  case Nil
  then show ?case by simp
next
  case (Cons m ms)
  then show ?case
    by (cases m) (auto simp: Let_def split: prod.splits sum.splits if_splits dest!: assms)
qed

lemma alphabeta_min_loop_sound:
  assumes "\<And>g al be st r st'. alphabeta b P clk g (depth - 1) al be True st = (Inr r, st')
             \<Longrightarrow> alphabeta_run b P g (depth - 1) al be True = r"
  shows "alphabeta_min_loop b P clk game depth ms al be sc mv st = (Inr r, st')
           \<Longrightarrow> r = alphabeta_min_run b P game depth ms al be sc mv"
proof (induction ms arbitrary: be sc mv st)
  case Nil
  then show ?case by simp
next
  case (Cons m ms)
  then show ?case
    by (cases m) (auto simp: Let_def split: prod.splits sum.splits if_splits dest!: assms)
qed

lemma alphabeta_sound:
  "alphabeta b P clk game depth al be mx st = (Inr r, st')
     \<Longrightarrow> r = alphabeta_run b P game depth al be mx"
proof (induction "nat depth" arbitrary: depth game al be mx st r st' rule: less_induct)
  case less
  show ?case
  proof (cases "depth < 1 \<or> get_legal_moves b game None = []")
    case True
    with less.prems show ?thesis
      by (auto simp: alphabeta.simps alphabeta_run.simps split: if_splits)
  next
    case False
    then have d: "nat (depth - 1) < nat depth" by simp
    have ih: "\<And>g al be mx st r st'. alphabeta b P clk g (depth - 1) al be mx st = (Inr r, st')
             \<Longrightarrow> alphabeta_run b P g (depth - 1) al be mx = r"
      using less.hyps [OF d] by metis
    from less.prems False show ?thesis
      by (auto simp: alphabeta.simps [of _ _ _ game] alphabeta_run.simps [of _ _ game] Let_def
          split: if_splits
          intro: alphabeta_max_loop_sound [OF ih] alphabeta_min_loop_sound [OF ih])
  qed
qed

subsection \<open>Searches that are not cancelled\<close>

text \<open>Under a clock that never falls below the threshold every search returns.\<close>

lemma minimax_max_loop_returns:
  assumes "\<And>g st. \<exists>st'. minimax b P clk g (depth - 1) False st
             = (Inr (minimax_run b P g (depth - 1) False), st')"
  shows "\<exists>st'. minimax_max_loop b P clk game depth ms sc mv st
           = (Inr (minimax_max_run b P game depth ms sc mv), st')"
proof (induction ms arbitrary: sc mv st)
  case Nil
  then show ?case by simp
next
  case (Cons m ms)
  obtain st1 where "minimax b P clk (forecast_move b game m) (depth - 1) False st
             = (Inr (minimax_run b P (forecast_move b game m) (depth - 1) False), st1)"
    using assms by blast
  then show ?case
    using Cons.IH by (simp add: Let_def split: prod.splits)
qed

lemma minimax_min_loop_returns:
  assumes "\<And>g st. \<exists>st'. minimax b P clk g (depth - 1) True st
             = (Inr (minimax_run b P g (depth - 1) True), st')"
  shows "\<exists>st'. minimax_min_loop b P clk game depth ms sc mv st
           = (Inr (minimax_min_run b P game depth ms sc mv), st')"
proof (induction ms arbitrary: sc mv st)
  case Nil
  then show ?case by simp
next
  case (Cons m ms)
  obtain st1 where "minimax b P clk (forecast_move b game m) (depth - 1) True st
             = (Inr (minimax_run b P (forecast_move b game m) (depth - 1) True), st1)"
    using assms by blast
  then show ?case
    using Cons.IH by (simp add: Let_def split: prod.splits)
qed

lemma minimax_returns:
  assumes ample: "\<And>k. TIMER_THRESHOLD P \<le> clk k"
  shows "\<exists>st'. minimax b P clk game depth mx st = (Inr (minimax_run b P game depth mx), st')"
proof (induction "nat depth" arbitrary: depth game mx st rule: less_induct)
  case less
  have t: "\<not> clk (time_queries st) < TIMER_THRESHOLD P"
    using ample [of "time_queries st"] by simp
  show ?case
  proof (cases "depth < 1 \<or> get_legal_moves b game None = []")
    case True
    with t show ?thesis
      by (auto simp: minimax.simps minimax_run.simps)
  next
    case False
    then have d: "nat (depth - 1) < nat depth" by simp
    have ih: "\<And>g mx st. \<exists>st'. minimax b P clk g (depth - 1) mx st
             = (Inr (minimax_run b P g (depth - 1) mx), st')"
      using less.hyps [OF d] by blast
    from t False show ?thesis
      using minimax_max_loop_returns [OF ih] minimax_min_loop_returns [OF ih]
      by (simp add: minimax.simps [of _ _ _ game] minimax_run.simps [of _ _ game] Let_def)
  qed
qed

subsection \<open>The result of a completed minimax loop\<close>

text \<open>The completed maximizing loop computes the maximum of the running score and the
  scores of the moves left, and keeps the first move that reaches it.\<close>

lemma minimax_max_run_score:
  "fst (minimax_max_run b P game depth ms sc mv)
     = Max (insert sc ((\<lambda>m. fst (minimax_run b P (forecast_move b game m) (depth - 1) False)) ` set ms))"
proof (induction ms arbitrary: sc mv)
  case Nil
  then show ?case by simp
next
  case (Cons m ms)
  let ?cv = "\<lambda>m. fst (minimax_run b P (forecast_move b game m) (depth - 1) False)"
  have fin: "finite (?cv ` set ms)" by simp
  have "Max (insert sc (insert (?cv m) (?cv ` set ms)))
          = Max (insert (max sc (?cv m)) (?cv ` set ms))"
    by (cases "set ms = {}") (simp_all add: max.assoc)
  then show ?case
    using Cons.IH by (auto simp: Let_def max_def not_less)
qed

lemma minimax_min_run_score:
  "fst (minimax_min_run b P game depth ms sc mv)
     = Min (insert sc ((\<lambda>m. fst (minimax_run b P (forecast_move b game m) (depth - 1) True)) ` set ms))"
proof (induction ms arbitrary: sc mv)
  case Nil
  then show ?case by simp
next
  case (Cons m ms)
  let ?cv = "\<lambda>m. fst (minimax_run b P (forecast_move b game m) (depth - 1) True)"
  have "Min (insert sc (insert (?cv m) (?cv ` set ms)))
          = Min (insert (min sc (?cv m)) (?cv ` set ms))"
    by (cases "set ms = {}") (simp_all add: min.assoc)
  then show ?case
    using Cons.IH by (auto simp: Let_def min_def not_less)
qed

lemma minimax_max_run_move:
  fixes b P game depth
  defines "cv \<equiv> \<lambda>m. fst (minimax_run b P (forecast_move b game m) (depth - 1) False)"
  shows "snd (minimax_max_run b P game depth ms sc mv)
     = (if sc < Max (insert sc (cv ` set ms))
        then the (find (\<lambda>m. cv m = Max (insert sc (cv ` set ms))) ms) else mv)"
proof (induction ms arbitrary: sc mv)
  case Nil
  then show ?case by simp
next
  case (Cons m ms)
  have fin: "finite (cv ` set ms)" by simp
  have mx: "Max (insert sc (insert (cv m) (cv ` set ms)))
          = Max (insert (max sc (cv m)) (cv ` set ms))"
    by (cases "set ms = {}") (simp_all add: max.assoc)
  show ?case
  proof (cases "sc < cv m")
    case True
    then have m1: "max sc (cv m) = cv m" by (simp add: max_def less_imp_le)
    have ge: "cv m \<le> Max (insert (cv m) (cv ` set ms))" by simp
    have top: "\<forall>a\<in>set ms. cv a \<le> cv m \<Longrightarrow> Max (insert (cv m) (cv ` set ms)) = cv m"
      by (intro Max_eqI) auto
    have run: "minimax_max_run b P game depth (m # ms) sc mv = minimax_max_run b P game depth ms (cv m) m"
      using True by (simp add: cv_def Let_def)
    show ?thesis
      unfolding run Cons.IH using True ge mx m1 top
      by (auto simp: not_less)
  next
    case False
    then have m1: "max sc (cv m) = sc" by (simp add: max_def not_less)
    have run: "minimax_max_run b P game depth (m # ms) sc mv = minimax_max_run b P game depth ms sc mv"
      using False by (simp add: cv_def Let_def)
    have ge: "sc \<le> Max (insert sc (cv ` set ms))" by simp
    show ?thesis
      unfolding run Cons.IH using False ge mx m1
      by (auto simp: not_less)
  qed
qed

lemma minimax_min_run_move:
  fixes b P game depth
  defines "cv \<equiv> \<lambda>m. fst (minimax_run b P (forecast_move b game m) (depth - 1) True)"
  shows "snd (minimax_min_run b P game depth ms sc mv)
     = (if Min (insert sc (cv ` set ms)) < sc
        then the (find (\<lambda>m. cv m = Min (insert sc (cv ` set ms))) ms) else mv)"
proof (induction ms arbitrary: sc mv)
  case Nil
  then show ?case by simp
next
  case (Cons m ms)
  have mn: "Min (insert sc (insert (cv m) (cv ` set ms)))
          = Min (insert (min sc (cv m)) (cv ` set ms))"
    by (cases "set ms = {}") (simp_all add: min.assoc)
  show ?case
  proof (cases "cv m < sc")
    case True
    then have m1: "min sc (cv m) = cv m" by (auto simp: min_def)
    have le: "Min (insert (cv m) (cv ` set ms)) \<le> cv m" by simp
    have bot: "\<forall>a\<in>set ms. cv m \<le> cv a \<Longrightarrow> Min (insert (cv m) (cv ` set ms)) = cv m"
      by (intro Min_eqI) auto
    have run: "minimax_min_run b P game depth (m # ms) sc mv = minimax_min_run b P game depth ms (cv m) m"
      using True by (simp add: cv_def Let_def)
    show ?thesis
      unfolding run Cons.IH using True le mn m1 bot
      by (auto simp: not_less)
  next
    case False
    then have m1: "min sc (cv m) = sc" by (simp add: min_def not_less)
    have run: "minimax_min_run b P game depth (m # ms) sc mv = minimax_min_run b P game depth ms sc mv"
      using False by (simp add: cv_def Let_def)
    have le: "Min (insert sc (cv ` set ms)) \<le> sc" by simp
    show ?thesis
      unfolding run Cons.IH using False le mn m1
      by (auto simp: not_less)
  qed
qed

subsection \<open>The bounds of alpha-beta\<close>

text \<open>
  With \<open>alpha < beta\<close>, the score \<open>v\<close> of a completed alpha-beta search and the minimax
  score \<open>w\<close> of the same state are related by \<open>bounds alpha beta v w\<close>: \<open>v\<close> is exact
  inside the window, an upper bound of \<open>w\<close> at or below \<open>alpha\<close>, and a lower bound of
  \<open>w\<close> at or above \<open>beta\<close>.
\<close>

lemma alphabeta_max_run_bounds:
  fixes b P game depth
  defines "cv \<equiv> \<lambda>m. fst (minimax_run b P (forecast_move b game m) (depth - 1) False)"
  assumes child: "\<And>g al be. al < be \<Longrightarrow>
     bounds al be (fst (alphabeta_run b P g (depth - 1) al be False))
       (fst (minimax_run b P g (depth - 1) False))"
  shows "alpha < beta \<Longrightarrow> sc \<le> alpha \<Longrightarrow>
     (let V = fst (alphabeta_max_run b P game depth ms alpha beta sc mv) in
        sc \<le> V
        \<and> (V \<le> alpha \<longrightarrow> (\<forall>m\<in>set ms. cv m \<le> V))
        \<and> (alpha < V \<and> V < beta \<longrightarrow> (\<forall>m\<in>set ms. cv m \<le> V) \<and> (\<exists>m\<in>set ms. cv m = V))
        \<and> (beta \<le> V \<longrightarrow> (\<exists>m\<in>set ms. V \<le> cv m)))"
proof (induction ms arbitrary: alpha sc mv)
  case Nil
  then show ?case by auto
next
  case (Cons m ms)
  define v where "v = fst (alphabeta_run b P (forecast_move b game m) (depth - 1) alpha beta False)"
  have kb: "bounds alpha beta v (cv m)"
    unfolding v_def cv_def using child [OF Cons.prems(1)] .
  consider (low) "v \<le> alpha" | (mid) "alpha < v" "v < beta" | (high) "beta \<le> v"
    by (meson not_less)
  then show ?case
  proof cases
    case low
    define sc' where "sc' = (if sc < v then v else sc)"
    have s: "sc' \<le> alpha" "sc \<le> sc'" "v \<le> sc'"
      using low Cons.prems by (auto simp: sc'_def)
    have a: "max alpha sc' = alpha" using s by (simp add: max_def)
    have cvm: "cv m \<le> v" using kb low by (simp add: bounds_def)
    have run: "alphabeta_max_run b P game depth (m # ms) alpha beta sc mv
        = alphabeta_max_run b P game depth ms alpha beta sc' (if sc < v then m else mv)"
      using Cons.prems(1) a by (auto simp: Let_def v_def [symmetric] sc'_def)
    show ?thesis
      unfolding run using Cons.IH [OF Cons.prems(1) s(1), of "if sc < v then m else mv"] s cvm low
      by (auto simp: Let_def)
  next
    case mid
    have sv: "sc < v" using mid Cons.prems by auto
    have a: "max alpha v = v" using mid by (simp add: max_def less_imp_le)
    have cvm: "cv m = v" using kb mid by (simp add: bounds_def)
    have run: "alphabeta_max_run b P game depth (m # ms) alpha beta sc mv
        = alphabeta_max_run b P game depth ms v beta v m"
      using sv a mid by (auto simp: Let_def v_def [symmetric])
    show ?thesis
      unfolding run using Cons.IH [OF mid(2), of v m] cvm mid sv
      by (auto simp: Let_def)
  next
    case high
    have sv: "sc < v" using high Cons.prems by auto
    have a: "max alpha v = v" using high Cons.prems by (auto simp: max_def)
    have cvm: "v \<le> cv m" using kb high by (simp add: bounds_def)
    have run: "alphabeta_max_run b P game depth (m # ms) alpha beta sc mv = (v, m)"
      using sv a high by (simp add: Let_def v_def [symmetric])
    show ?thesis
      unfolding run using cvm high sv Cons.prems
      by (auto simp: Let_def)
  qed
qed

lemma alphabeta_min_run_bounds:
  fixes b P game depth
  defines "cv \<equiv> \<lambda>m. fst (minimax_run b P (forecast_move b game m) (depth - 1) True)"
  assumes child: "\<And>g al be. al < be \<Longrightarrow>
     bounds al be (fst (alphabeta_run b P g (depth - 1) al be True))
       (fst (minimax_run b P g (depth - 1) True))"
  shows "alpha < beta \<Longrightarrow> beta \<le> sc \<Longrightarrow>
     (let V = fst (alphabeta_min_run b P game depth ms alpha beta sc mv) in
        V \<le> sc
        \<and> (beta \<le> V \<longrightarrow> (\<forall>m\<in>set ms. V \<le> cv m))
        \<and> (alpha < V \<and> V < beta \<longrightarrow> (\<forall>m\<in>set ms. V \<le> cv m) \<and> (\<exists>m\<in>set ms. cv m = V))
        \<and> (V \<le> alpha \<longrightarrow> (\<exists>m\<in>set ms. cv m \<le> V)))"
proof (induction ms arbitrary: beta sc mv)
  case Nil
  then show ?case by auto
next
  case (Cons m ms)
  define v where "v = fst (alphabeta_run b P (forecast_move b game m) (depth - 1) alpha beta True)"
  have kb: "bounds alpha beta v (cv m)"
    unfolding v_def cv_def using child [OF Cons.prems(1)] .
  consider (low) "v \<le> alpha" | (mid) "alpha < v" "v < beta" | (high) "beta \<le> v"
    by (meson not_less)
  then show ?case
  proof cases
    case high
    define sc' where "sc' = (if v < sc then v else sc)"
    have s: "beta \<le> sc'" "sc' \<le> sc" "sc' \<le> v"
      using high Cons.prems by (auto simp: sc'_def)
    have a: "min beta sc' = beta" using s by (simp add: min_def)
    have cvm: "v \<le> cv m" using kb high by (simp add: bounds_def)
    have run: "alphabeta_min_run b P game depth (m # ms) alpha beta sc mv
        = alphabeta_min_run b P game depth ms alpha beta sc' (if v < sc then m else mv)"
      using Cons.prems(1) a by (auto simp: Let_def v_def [symmetric] sc'_def)
    show ?thesis
      unfolding run using Cons.IH [OF Cons.prems(1) s(1), of "if v < sc then m else mv"] s cvm high
      by (auto simp: Let_def)
  next
    case mid
    have sv: "v < sc" using mid Cons.prems by auto
    have a: "min beta v = v" using mid by (auto simp: min_def)
    have cvm: "cv m = v" using kb mid by (simp add: bounds_def)
    have run: "alphabeta_min_run b P game depth (m # ms) alpha beta sc mv
        = alphabeta_min_run b P game depth ms alpha v v m"
      using sv a mid by (auto simp: Let_def v_def [symmetric])
    show ?thesis
      unfolding run using Cons.IH [OF mid(1), of v m] cvm mid sv
      by (auto simp: Let_def)
  next
    case low
    have sv: "v < sc" using low Cons.prems by auto
    have a: "min beta v = v" using low Cons.prems by (auto simp: min_def)
    have cvm: "cv m \<le> v" using kb low by (simp add: bounds_def)
    have run: "alphabeta_min_run b P game depth (m # ms) alpha beta sc mv = (v, m)"
      using sv a low by (simp add: Let_def v_def [symmetric])
    show ?thesis
      unfolding run using cvm low sv Cons.prems
      by (auto simp: Let_def)
  qed
qed

lemma alphabeta_run_bounds:
  "alpha < beta \<Longrightarrow>
     bounds alpha beta (fst (alphabeta_run b P game depth alpha beta mx))
       (fst (minimax_run b P game depth mx))"
proof (induction "nat depth" arbitrary: depth game alpha beta mx rule: less_induct)
  case less
  show ?case
  proof (cases "depth < 1 \<or> get_legal_moves b game None = []")
    case True
    then show ?thesis
      by (auto simp: alphabeta_run.simps minimax_run.simps bounds_def)
  next
    case False
    then have d: "nat (depth - 1) < nat depth" by simp
    define legal where "legal = get_legal_moves b game None"
    have ne: "legal \<noteq> []" using False by (simp add: legal_def)
    have ih: "\<And>g al be mx. al < be \<Longrightarrow>
       bounds al be (fst (alphabeta_run b P g (depth - 1) al be mx))
         (fst (minimax_run b P g (depth - 1) mx))"
      using less.hyps [OF d] by blast
    show ?thesis
    proof (cases mx)
      case True
      let ?cv = "\<lambda>m. fst (minimax_run b P (forecast_move b game m) (depth - 1) False)"
      have w: "fst (minimax_run b P game depth mx) = Max (?cv ` set legal)"
        using False True ne
        by (simp add: minimax_run.simps [of _ _ game] Let_def legal_def [symmetric]
            minimax_max_run_score Max_insert)
      have v: "alphabeta_run b P game depth alpha beta mx
          = alphabeta_max_run b P game depth legal alpha beta NegInf (hd legal)"
        using False True by (simp add: alphabeta_run.simps [of _ _ game] Let_def legal_def)
      have fin: "finite (?cv ` set legal)" "?cv ` set legal \<noteq> {}" using ne by auto
      define V where "V = fst (alphabeta_max_run b P game depth legal alpha beta NegInf (hd legal))"
      have B: "(V \<le> alpha \<longrightarrow> (\<forall>m\<in>set legal. ?cv m \<le> V))
        \<and> (alpha < V \<and> V < beta \<longrightarrow> (\<forall>m\<in>set legal. ?cv m \<le> V) \<and> (\<exists>m\<in>set legal. ?cv m = V))
        \<and> (beta \<le> V \<longrightarrow> (\<exists>m\<in>set legal. V \<le> ?cv m))"
        using alphabeta_max_run_bounds [OF ih, of alpha beta NegInf game legal "hd legal"] less.prems
        by (simp add: Let_def V_def)
      have "bounds alpha beta V (Max (?cv ` set legal))"
        unfolding bounds_def
      proof (intro conjI impI)
        assume "V \<le> alpha"
        then show "Max (?cv ` set legal) \<le> V" using B fin by (simp add: Max_le_iff)
      next
        assume a: "alpha < V \<and> V < beta"
        then obtain m where m: "m \<in> set legal" "?cv m = V" using B by blast
        have "V \<in> ?cv ` set legal" using m by blast
        moreover have "\<And>y. y \<in> ?cv ` set legal \<Longrightarrow> y \<le> V" using a B by blast
        ultimately show "Max (?cv ` set legal) = V" using fin(1) by (rule_tac Max_eqI) auto
      next
        assume "beta \<le> V"
        then obtain m where m: "m \<in> set legal" "V \<le> ?cv m" using B by blast
        have "?cv m \<le> Max (?cv ` set legal)" using m(1) fin(1) by (intro Max_ge) auto
        then show "V \<le> Max (?cv ` set legal)" using m(2) by (rule_tac order_trans)
      qed
      then show ?thesis
        unfolding w v V_def .
    next
      case mn: False
      let ?cv = "\<lambda>m. fst (minimax_run b P (forecast_move b game m) (depth - 1) True)"
      have w: "fst (minimax_run b P game depth mx) = Min (?cv ` set legal)"
        using False mn ne
        by (simp add: minimax_run.simps [of _ _ game] Let_def legal_def [symmetric]
            minimax_min_run_score Min_insert)
      have v: "alphabeta_run b P game depth alpha beta mx
          = alphabeta_min_run b P game depth legal alpha beta PosInf (hd legal)"
        using False mn by (simp add: alphabeta_run.simps [of _ _ game] Let_def legal_def)
      have fin: "finite (?cv ` set legal)" "?cv ` set legal \<noteq> {}" using ne by auto
      define V where "V = fst (alphabeta_min_run b P game depth legal alpha beta PosInf (hd legal))"
      have B: "(beta \<le> V \<longrightarrow> (\<forall>m\<in>set legal. V \<le> ?cv m))
        \<and> (alpha < V \<and> V < beta \<longrightarrow> (\<forall>m\<in>set legal. V \<le> ?cv m) \<and> (\<exists>m\<in>set legal. ?cv m = V))
        \<and> (V \<le> alpha \<longrightarrow> (\<exists>m\<in>set legal. ?cv m \<le> V))"
        using alphabeta_min_run_bounds [OF ih, of alpha beta PosInf game legal "hd legal"] less.prems
        by (simp add: Let_def V_def)
      have "bounds alpha beta V (Min (?cv ` set legal))"
        unfolding bounds_def
      proof (intro conjI impI)
        assume "V \<le> alpha"
        then obtain m where m: "m \<in> set legal" "?cv m \<le> V" using B by blast
        have "Min (?cv ` set legal) \<le> ?cv m" using m(1) fin(1) by (intro Min_le) auto
        then show "Min (?cv ` set legal) \<le> V" using m(2) by (rule_tac order_trans)
      next
        assume a: "alpha < V \<and> V < beta"
        then obtain m where m: "m \<in> set legal" "?cv m = V" using B by blast
        have "V \<in> ?cv ` set legal" using m by blast
        moreover have "\<And>y. y \<in> ?cv ` set legal \<Longrightarrow> V \<le> y" using a B by blast
        ultimately show "Min (?cv ` set legal) = V" using fin(1) by (rule_tac Min_eqI) auto
      next
        assume "beta \<le> V"
        then show "V \<le> Min (?cv ` set legal)" using B fin by (simp add: Min_ge_iff)
      qed
      then show ?thesis
        unfolding w v V_def .
    qed
  qed
qed

subsection \<open>The root window\<close>

text \<open>
  At the root \<open>alpha\<close> is the running maximum itself, so a child is reported exactly
  when it improves on the running maximum and as no improvement otherwise: the loop of
  alpha-beta and the loop of minimax update score and move at the same moves.
\<close>

lemma minimax_max_run_top: "minimax_max_run b P game depth ms PosInf mv = (PosInf, mv)"
  by (induction ms) (simp_all add: Let_def)

lemma minimax_min_run_bot: "minimax_min_run b P game depth ms NegInf mv = (NegInf, mv)"
  by (induction ms) (simp_all add: Let_def)

lemma alphabeta_max_run_root:
  "sc < PosInf \<Longrightarrow>
     alphabeta_max_run b P game depth ms sc PosInf sc mv = minimax_max_run b P game depth ms sc mv"
proof (induction ms arbitrary: sc mv)
  case Nil
  then show ?case by simp
next
  case (Cons m ms)
  define v where "v = fst (alphabeta_run b P (forecast_move b game m) (depth - 1) sc PosInf False)"
  define w where "w = fst (minimax_run b P (forecast_move b game m) (depth - 1) False)"
  have kb: "bounds sc PosInf v w"
    unfolding v_def w_def using Cons.prems by (rule alphabeta_run_bounds)
  show ?case
  proof (cases "sc < w")
    case True
    have vw: "v = w"
      using kb True Cons.prems unfolding bounds_def
      by (metis not_less score_bounds_eq(2) order.strict_trans1)
    show ?thesis
    proof (cases "w = PosInf")
      case True
      then show ?thesis
        using vw Cons.prems
        by (simp add: Let_def v_def [symmetric] w_def [symmetric] minimax_max_run_top)
    next
      case False
      then have lt: "w < PosInf" by (cases w) simp_all
      have a: "max sc w = w" using True by (simp add: max_def less_imp_le)
      show ?thesis
        using vw True False a Cons.IH [OF lt, of m]
        by (simp add: Let_def v_def [symmetric] w_def [symmetric])
    qed
  next
    case False
    have vs: "\<not> sc < v"
      using kb False Cons.prems unfolding bounds_def
      by (metis not_less score_bounds_eq(2) order.strict_trans1)
    have np: "\<not> PosInf \<le> sc" using Cons.prems by (simp add: not_le)
    show ?thesis
      using vs False np Cons.IH [OF Cons.prems, of mv]
      by (simp add: Let_def v_def [symmetric] w_def [symmetric])
  qed
qed

lemma alphabeta_min_run_root:
  "NegInf < sc \<Longrightarrow>
     alphabeta_min_run b P game depth ms NegInf sc sc mv = minimax_min_run b P game depth ms sc mv"
proof (induction ms arbitrary: sc mv)
  case Nil
  then show ?case by simp
next
  case (Cons m ms)
  define v where "v = fst (alphabeta_run b P (forecast_move b game m) (depth - 1) NegInf sc True)"
  define w where "w = fst (minimax_run b P (forecast_move b game m) (depth - 1) True)"
  have kb: "bounds NegInf sc v w"
    unfolding v_def w_def using Cons.prems by (rule alphabeta_run_bounds)
  show ?case
  proof (cases "w < sc")
    case True
    have vw: "v = w"
      using kb True Cons.prems unfolding bounds_def
      by (metis not_less score_bounds_eq(1) order.strict_trans2)
    show ?thesis
    proof (cases "w = NegInf")
      case True
      then show ?thesis
        using vw Cons.prems
        by (simp add: Let_def v_def [symmetric] w_def [symmetric] minimax_min_run_bot)
    next
      case False
      then have lt: "NegInf < w" by (cases w) simp_all
      have a: "min sc w = w" using True by (auto simp: min_def)
      show ?thesis
        using vw True False a Cons.IH [OF lt, of m]
        by (simp add: Let_def v_def [symmetric] w_def [symmetric])
    qed
  next
    case False
    have vs: "\<not> v < sc"
      using kb False Cons.prems unfolding bounds_def
      by (metis not_less score_bounds_eq(1) order.strict_trans2)
    have np: "\<not> sc \<le> NegInf" using Cons.prems by (simp add: not_le)
    show ?thesis
      using vs False np Cons.IH [OF Cons.prems, of mv]
      by (simp add: Let_def v_def [symmetric] w_def [symmetric])
  qed
qed

lemma alphabeta_run_root:
  "alphabeta_run b P game depth NegInf PosInf mx = minimax_run b P game depth mx"
  by (simp add: alphabeta_run.simps [of _ _ game] minimax_run.simps [of _ _ game] Let_def
      alphabeta_max_run_root alphabeta_min_run_root)

subsection \<open>Alpha-beta searches that are not cancelled\<close>

lemma alphabeta_max_loop_returns:
  assumes "\<And>g al be st. \<exists>st'. alphabeta b P clk g (depth - 1) al be False st
             = (Inr (alphabeta_run b P g (depth - 1) al be False), st')"
  shows "\<exists>st'. alphabeta_max_loop b P clk game depth ms al be sc mv st
           = (Inr (alphabeta_max_run b P game depth ms al be sc mv), st')"
proof (induction ms arbitrary: al sc mv st)
  case Nil
  then show ?case by simp
next
  case (Cons m ms)
  obtain st1 where "alphabeta b P clk (forecast_move b game m) (depth - 1) al be False st
             = (Inr (alphabeta_run b P (forecast_move b game m) (depth - 1) al be False), st1)"
    using assms by blast
  then show ?case
    using Cons.IH by (simp add: Let_def split: prod.splits)
qed

lemma alphabeta_min_loop_returns:
  assumes "\<And>g al be st. \<exists>st'. alphabeta b P clk g (depth - 1) al be True st
             = (Inr (alphabeta_run b P g (depth - 1) al be True), st')"
  shows "\<exists>st'. alphabeta_min_loop b P clk game depth ms al be sc mv st
           = (Inr (alphabeta_min_run b P game depth ms al be sc mv), st')"
proof (induction ms arbitrary: be sc mv st)
  case Nil
  then show ?case by simp
next
  case (Cons m ms)
  obtain st1 where "alphabeta b P clk (forecast_move b game m) (depth - 1) al be True st
             = (Inr (alphabeta_run b P (forecast_move b game m) (depth - 1) al be True), st1)"
    using assms by blast
  then show ?case
    using Cons.IH by (simp add: Let_def split: prod.splits)
qed

lemma alphabeta_returns:
  assumes ample: "\<And>k. TIMER_THRESHOLD P \<le> clk k"
  shows "\<exists>st'. alphabeta b P clk game depth al be mx st
           = (Inr (alphabeta_run b P game depth al be mx), st')"
proof (induction "nat depth" arbitrary: depth game al be mx st rule: less_induct)
  case less
  have t: "\<not> clk (time_queries st) < TIMER_THRESHOLD P"
    using ample [of "time_queries st"] by simp
  show ?case
  proof (cases "depth < 1 \<or> get_legal_moves b game None = []")
    case True
    with t show ?thesis
      by (auto simp: alphabeta.simps alphabeta_run.simps)
  next
    case False
    then have d: "nat (depth - 1) < nat depth" by simp
    have ih: "\<And>g al be mx st. \<exists>st'. alphabeta b P clk g (depth - 1) al be mx st
             = (Inr (alphabeta_run b P g (depth - 1) al be mx), st')"
      using less.hyps [OF d] by blast
    from t False show ?thesis
      using alphabeta_max_loop_returns [OF ih] alphabeta_min_loop_returns [OF ih]
      by (simp add: alphabeta.simps [of _ _ _ game] alphabeta_run.simps [of _ _ game] Let_def)
  qed
qed

lemma minimax_score_run:
  "minimax_score b P game depth mx = fst (minimax_run b P game depth mx)"
proof -
  obtain st' where "minimax b P (unhurried P) game depth mx fresh
      = (Inr (minimax_run b P game depth mx), st')"
    using minimax_returns [of P "unhurried P" b game depth mx fresh]
    by (auto simp: unhurried_def steady_def)
  then show ?thesis by (simp add: minimax_score_def)
qed

subsection \<open>Counting the queries of the clock\<close>

text \<open>Every search queries the clock; a cancellation from below the entry costs a
  second query.\<close>

lemma minimax_max_loop_queries:
  assumes "\<And>g st. time_queries st < time_queries (snd (minimax b P clk g (depth - 1) False st))"
  shows "time_queries st \<le> time_queries (snd (minimax_max_loop b P clk game depth ms sc mv st))
     \<and> (\<forall>e. fst (minimax_max_loop b P clk game depth ms sc mv st) = Inl e
           \<longrightarrow> time_queries st < time_queries (snd (minimax_max_loop b P clk game depth ms sc mv st)))"
proof (induction ms arbitrary: sc mv st)
  case Nil
  then show ?case by simp
next
  case (Cons m ms)
  obtain x st1 where c: "minimax b P clk (forecast_move b game m) (depth - 1) False st = (x, st1)"
    by (cases "minimax b P clk (forecast_move b game m) (depth - 1) False st")
  have lt: "time_queries st < time_queries st1"
    using assms [of st "forecast_move b game m"] c by simp
  show ?case
  proof (cases x)
    case (Inl e)
    then show ?thesis using c lt by simp
  next
    case (Inr r)
    obtain ns nm where r: "r = (ns, nm)" by (cases r)
    show ?thesis
      using c Inr r lt Cons.IH [where sc=ns and mv=m and st=st1] Cons.IH [where sc=sc and mv=mv and st=st1]
      by (auto simp: Let_def)
  qed
qed

lemma minimax_min_loop_queries:
  assumes "\<And>g st. time_queries st < time_queries (snd (minimax b P clk g (depth - 1) True st))"
  shows "time_queries st \<le> time_queries (snd (minimax_min_loop b P clk game depth ms sc mv st))
     \<and> (\<forall>e. fst (minimax_min_loop b P clk game depth ms sc mv st) = Inl e
           \<longrightarrow> time_queries st < time_queries (snd (minimax_min_loop b P clk game depth ms sc mv st)))"
proof (induction ms arbitrary: sc mv st)
  case Nil
  then show ?case by simp
next
  case (Cons m ms)
  obtain x st1 where c: "minimax b P clk (forecast_move b game m) (depth - 1) True st = (x, st1)"
    by (cases "minimax b P clk (forecast_move b game m) (depth - 1) True st")
  have lt: "time_queries st < time_queries st1"
    using assms [of st "forecast_move b game m"] c by simp
  show ?case
  proof (cases x)
    case (Inl e)
    then show ?thesis using c lt by simp
  next
    case (Inr r)
    obtain ns nm where r: "r = (ns, nm)" by (cases r)
    show ?thesis
      using c Inr r lt Cons.IH [where sc=ns and mv=m and st=st1] Cons.IH [where sc=sc and mv=mv and st=st1]
      by (auto simp: Let_def)
  qed
qed

lemma minimax_queries:
  "time_queries st < time_queries (snd (minimax b P clk game depth mx st))
   \<and> (TIMER_THRESHOLD P \<le> clk (time_queries st)
        \<longrightarrow> minimax b P clk game depth mx st \<noteq> (Inl Timeout, query_time st))"
proof (induction "nat depth" arbitrary: depth game mx st rule: less_induct)
  case less
  show ?case
  proof (cases "clk (time_queries st) < TIMER_THRESHOLD P
                  \<or> depth < 1 \<or> get_legal_moves b game None = []")
    case True
    then show ?thesis
      by (auto simp: minimax.simps query_time_def call_score_def)
  next
    case False
    then have d: "nat (depth - 1) < nat depth" by simp
    have ih: "\<And>g mx st. time_queries st < time_queries (snd (minimax b P clk g (depth - 1) mx st))"
      using less.hyps [OF d] by blast
    define legal where "legal = get_legal_moves b game None"
    have q: "time_queries (query_time st) = Suc (time_queries st)"
      by (simp add: query_time_def)
    show ?thesis
    proof (cases mx)
      case True
      have e: "minimax b P clk game depth mx st
          = minimax_max_loop b P clk game depth legal NegInf (hd legal) (query_time st)"
        using False True by (simp add: minimax.simps [of _ _ _ game] legal_def Let_def)
      show ?thesis
        unfolding e
        using minimax_max_loop_queries [OF ih, of "query_time st" game legal NegInf "hd legal"] q
        by (cases "minimax_max_loop b P clk game depth legal NegInf (hd legal) (query_time st)")
           (auto simp: less_Suc_eq_le)
    next
      case mn: False
      have e: "minimax b P clk game depth mx st
          = minimax_min_loop b P clk game depth legal PosInf (hd legal) (query_time st)"
        using False mn by (simp add: minimax.simps [of _ _ _ game] legal_def Let_def)
      show ?thesis
        unfolding e
        using minimax_min_loop_queries [OF ih, of "query_time st" game legal PosInf "hd legal"] q
        by (cases "minimax_min_loop b P clk game depth legal PosInf (hd legal) (query_time st)")
           (auto simp: less_Suc_eq_le)
    qed
  qed
qed

lemma alphabeta_max_loop_queries:
  assumes "\<And>g al be st. time_queries st
             < time_queries (snd (alphabeta b P clk g (depth - 1) al be False st))"
  shows "time_queries st
           \<le> time_queries (snd (alphabeta_max_loop b P clk game depth ms al be sc mv st))
     \<and> (\<forall>e. fst (alphabeta_max_loop b P clk game depth ms al be sc mv st) = Inl e
           \<longrightarrow> time_queries st
                 < time_queries (snd (alphabeta_max_loop b P clk game depth ms al be sc mv st)))"
proof (induction ms arbitrary: al sc mv st)
  case Nil
  then show ?case by simp
next
  case (Cons m ms)
  obtain x st1 where c: "alphabeta b P clk (forecast_move b game m) (depth - 1) al be False st = (x, st1)"
    by (cases "alphabeta b P clk (forecast_move b game m) (depth - 1) al be False st")
  have lt: "time_queries st < time_queries st1"
    using assms [of st "forecast_move b game m" al be] c by simp
  show ?case
  proof (cases x)
    case (Inl e)
    then show ?thesis using c lt by simp
  next
    case (Inr r)
    obtain ns nm where r: "r = (ns, nm)" by (cases r)
    show ?thesis
      using c Inr r lt
        Cons.IH [where st=st1 and al="max al (if sc < ns then ns else sc)"
                   and sc="if sc < ns then ns else sc" and mv="if sc < ns then m else mv"]
      by (auto simp: Let_def)
  qed
qed

lemma alphabeta_min_loop_queries:
  assumes "\<And>g al be st. time_queries st
             < time_queries (snd (alphabeta b P clk g (depth - 1) al be True st))"
  shows "time_queries st
           \<le> time_queries (snd (alphabeta_min_loop b P clk game depth ms al be sc mv st))
     \<and> (\<forall>e. fst (alphabeta_min_loop b P clk game depth ms al be sc mv st) = Inl e
           \<longrightarrow> time_queries st
                 < time_queries (snd (alphabeta_min_loop b P clk game depth ms al be sc mv st)))"
proof (induction ms arbitrary: be sc mv st)
  case Nil
  then show ?case by simp
next
  case (Cons m ms)
  obtain x st1 where c: "alphabeta b P clk (forecast_move b game m) (depth - 1) al be True st = (x, st1)"
    by (cases "alphabeta b P clk (forecast_move b game m) (depth - 1) al be True st")
  have lt: "time_queries st < time_queries st1"
    using assms [of st "forecast_move b game m" al be] c by simp
  show ?case
  proof (cases x)
    case (Inl e)
    then show ?thesis using c lt by simp
  next
    case (Inr r)
    obtain ns nm where r: "r = (ns, nm)" by (cases r)
    show ?thesis
      using c Inr r lt
        Cons.IH [where st=st1 and be="min be (if ns < sc then ns else sc)"
                   and sc="if ns < sc then ns else sc" and mv="if ns < sc then m else mv"]
      by (auto simp: Let_def)
  qed
qed

lemma alphabeta_queries:
  "time_queries st < time_queries (snd (alphabeta b P clk game depth al be mx st))
   \<and> (TIMER_THRESHOLD P \<le> clk (time_queries st)
        \<longrightarrow> alphabeta b P clk game depth al be mx st \<noteq> (Inl Timeout, query_time st))"
proof (induction "nat depth" arbitrary: depth game al be mx st rule: less_induct)
  case less
  show ?case
  proof (cases "clk (time_queries st) < TIMER_THRESHOLD P
                  \<or> depth < 1 \<or> get_legal_moves b game None = []")
    case True
    then show ?thesis
      by (auto simp: alphabeta.simps query_time_def call_score_def)
  next
    case False
    then have d: "nat (depth - 1) < nat depth" by simp
    have ih: "\<And>g al be mx st. time_queries st
                < time_queries (snd (alphabeta b P clk g (depth - 1) al be mx st))"
      using less.hyps [OF d] by blast
    define legal where "legal = get_legal_moves b game None"
    have q: "time_queries (query_time st) = Suc (time_queries st)"
      by (simp add: query_time_def)
    show ?thesis
    proof (cases mx)
      case True
      have e: "alphabeta b P clk game depth al be mx st
          = alphabeta_max_loop b P clk game depth legal al be NegInf (hd legal) (query_time st)"
        using False True by (simp add: alphabeta.simps [of _ _ _ game] legal_def Let_def)
      show ?thesis
        unfolding e
        using alphabeta_max_loop_queries [OF ih, of "query_time st" game legal al be NegInf "hd legal"] q
        by (cases "alphabeta_max_loop b P clk game depth legal al be NegInf (hd legal) (query_time st)")
           (auto simp: less_Suc_eq_le)
    next
      case mn: False
      have e: "alphabeta b P clk game depth al be mx st
          = alphabeta_min_loop b P clk game depth legal al be PosInf (hd legal) (query_time st)"
        using False mn by (simp add: alphabeta.simps [of _ _ _ game] legal_def Let_def)
      show ?thesis
        unfolding e
        using alphabeta_min_loop_queries [OF ih, of "query_time st" game legal al be PosInf "hd legal"] q
        by (cases "alphabeta_min_loop b P clk game depth legal al be PosInf (hd legal) (query_time st)")
           (auto simp: less_Suc_eq_le)
    qed
  qed
qed

subsection \<open>Unfolding the loop of iterative deepening\<close>


subsection \<open>Unfolding the concrete boards\<close>

lemmas toy_defs = toy_board_def toy_player_def toy_game_def toy_leaf_def CustomPlayer_init_def
  fresh_def query_time_def call_score_def steady_def expiring_def

lemmas grid_defs = grid_board_def grid_game_def

subsection \<open>The extremum that minimax keeps\<close>

lemma minimax_extremum:
  assumes ret: "minimax b P clk game depth mx st = (Inr (s, m), st')"
    and "1 \<le> depth" and "get_legal_moves b game None \<noteq> []"
  shows "(mx \<longrightarrow> s = Max ((\<lambda>mv. minimax_score b P (forecast_move b game mv) (depth - 1) False)
                        ` set (get_legal_moves b game None))
               \<and> find (\<lambda>mv. minimax_score b P (forecast_move b game mv) (depth - 1) False = s)
                    (get_legal_moves b game None) = Some m)
      \<and> (\<not> mx \<longrightarrow> s = Min ((\<lambda>mv. minimax_score b P (forecast_move b game mv) (depth - 1) True)
                        ` set (get_legal_moves b game None))
               \<and> find (\<lambda>mv. minimax_score b P (forecast_move b game mv) (depth - 1) True = s)
                    (get_legal_moves b game None) = Some m)"
proof -
  define legal where "legal = get_legal_moves b game None"
  have ne: "legal \<noteq> []" using assms(3) by (simp add: legal_def)
  have r: "(s, m) = minimax_run b P game depth mx"
    using ret by (rule minimax_sound)
  have sc: "\<And>g d x. minimax_score b P g d x = fst (minimax_run b P g d x)"
    by (rule minimax_score_run)
  show ?thesis
    unfolding legal_def [symmetric] sc
  proof (intro conjI impI)
    let ?cv = "\<lambda>mv. fst (minimax_run b P (forecast_move b game mv) (depth - 1) False)"
    assume mx
    then have e: "(s, m) = minimax_max_run b P game depth legal NegInf (hd legal)"
      using r assms(2) ne by (simp add: minimax_run.simps [of _ _ game] Let_def legal_def)
    have fin: "finite (?cv ` set legal)" "?cv ` set legal \<noteq> {}" using ne by auto
    have M: "Max (insert NegInf (?cv ` set legal)) = Max (?cv ` set legal)"
      using fin by (simp add: max_def)
    show s: "s = Max (?cv ` set legal)"
      using minimax_max_run_score [of b P game depth legal NegInf "hd legal"] e M
      by (metis fst_conv)
    have mv: "m = (if NegInf < s then the (find (\<lambda>m. ?cv m = s) legal) else hd legal)"
      using minimax_max_run_move [of b P game depth legal NegInf "hd legal"] e M s
      by (metis snd_conv)
    have "s \<in> ?cv ` set legal" unfolding s using fin by (rule Max_in)
    then obtain x where x: "x \<in> set legal" "?cv x = s" by auto
    show "find (\<lambda>mv. ?cv mv = s) legal = Some m"
    proof (cases "NegInf < s")
      case True
      have "find (\<lambda>mv. ?cv mv = s) legal \<noteq> None"
        unfolding find_None_iff using x by blast
      then obtain y where "find (\<lambda>mv. ?cv mv = s) legal = Some y"
        by blast
      then show ?thesis using mv True by simp
    next
      case False
      then have "s = NegInf" by (cases s) simp_all
      moreover have "?cv (hd legal) \<le> s"
        unfolding s using ne fin(1) by (intro Max_ge) auto
      ultimately have "?cv (hd legal) = s" by simp
      then have "find (\<lambda>mv. ?cv mv = s) legal = Some (hd legal)"
        using ne by (cases legal) simp_all
      then show ?thesis using mv False by simp
    qed
  next
    let ?cv = "\<lambda>mv. fst (minimax_run b P (forecast_move b game mv) (depth - 1) True)"
    assume "\<not> mx"
    then have e: "(s, m) = minimax_min_run b P game depth legal PosInf (hd legal)"
      using r assms(2) ne by (simp add: minimax_run.simps [of _ _ game] Let_def legal_def)
    have fin: "finite (?cv ` set legal)" "?cv ` set legal \<noteq> {}" using ne by auto
    have M: "Min (insert PosInf (?cv ` set legal)) = Min (?cv ` set legal)"
      using fin by (simp add: min_def)
    show s: "s = Min (?cv ` set legal)"
      using minimax_min_run_score [of b P game depth legal PosInf "hd legal"] e M
      by (metis fst_conv)
    have mv: "m = (if s < PosInf then the (find (\<lambda>m. ?cv m = s) legal) else hd legal)"
      using minimax_min_run_move [of b P game depth legal PosInf "hd legal"] e M s
      by (metis snd_conv)
    have "s \<in> ?cv ` set legal" unfolding s using fin by (rule Min_in)
    then obtain x where x: "x \<in> set legal" "?cv x = s" by auto
    show "find (\<lambda>mv. ?cv mv = s) legal = Some m"
    proof (cases "s < PosInf")
      case True
      have "find (\<lambda>mv. ?cv mv = s) legal \<noteq> None"
        unfolding find_None_iff using x by blast
      then obtain y where "find (\<lambda>mv. ?cv mv = s) legal = Some y"
        by blast
      then show ?thesis using mv True by simp
    next
      case False
      then have "s = PosInf" by (cases s) simp_all
      moreover have "s \<le> ?cv (hd legal)"
        unfolding s using ne fin(1) by (intro Min_le) auto
      ultimately have "?cv (hd legal) = s" by simp
      then have "find (\<lambda>mv. ?cv mv = s) legal = Some (hd legal)"
        using ne by (cases legal) simp_all
      then show ?thesis using mv False by simp
    qed
  qed
qed

subsection \<open>Iterative deepening with an unknown method\<close>

lemma iterative_deepening_returns_known_method:
  assumes "iterative_deepening b P clk game d score move st = Some y"
  shows "method_name P = ''minimax'' \<or> method_name P = ''alphabeta''"
proof (rule iterative_deepening.raw_induct
    [where Pa="\<lambda>t y. method_name (snd (fst (fst (fst (fst (fst (fst t))))))) = ''minimax''
                 \<or> method_name (snd (fst (fst (fst (fst (fst (fst t))))))) = ''alphabeta''",
     simplified, OF _ assms])
  fix f :: "('a, 'b) board \<Rightarrow> ('a, 'b) CustomPlayer \<Rightarrow> clock \<Rightarrow> 'a \<Rightarrow> int \<Rightarrow> score \<Rightarrow> move
    \<Rightarrow> search_state \<Rightarrow> (move \<times> search_state) option"
  fix b P clk game d s m st r
  assume ih: "\<And>b P clk game d s m st y. f b P clk game d s m st = Some y
      \<Longrightarrow> method_name P = ''minimax'' \<or> method_name P = ''alphabeta''"
    and body: "(case call_method b P clk game d s m st of
        (Inl e, st') \<Rightarrow> Some (m, st')
      | (Inr (score', move'), st') \<Rightarrow> f b P clk game (d + 1) score' move' st') = Some r"
  show "method_name P = ''minimax'' \<or> method_name P = ''alphabeta''"
  proof (rule ccontr)
    assume "\<not> (method_name P = ''minimax'' \<or> method_name P = ''alphabeta'')"
    then have "f b P clk game (d + 1) s m st = Some r"
      using body by (simp add: call_method_def)
    then show False
      using ih \<open>\<not> (method_name P = ''minimax'' \<or> method_name P = ''alphabeta'')\<close> by blast
  qed
qed

lemma iterative_deepening_unknown_method:
  assumes "method_name P \<noteq> ''minimax''" and "method_name P \<noteq> ''alphabeta''"
  shows "iterative_deepening b P clk game d score move st = None"
  using assms iterative_deepening_returns_known_method [of b P clk game d score move st]
  by (cases "iterative_deepening b P clk game d score move st") auto

subsection \<open>The middle of an odd side\<close>

lemma odd_half: "odd (n :: int) \<Longrightarrow> real_of_int (n div 2) = (real_of_int n - 1) / 2"
  by (auto elim!: oddE)

section \<open>Alpha-beta against minimax\<close>

text \<open>
  C1.  Called at the root with \<open>alpha\<close> minus infinity and \<open>beta\<close> plus infinity,
  \<open>alphabeta\<close> returns the score and the move that \<open>minimax\<close> returns at the same
  depth on the same state, whatever the score function: two calls that both return a
  result return the same pair, under any two clocks, and under a clock that never falls
  below the threshold both calls return.
\<close>

theorem alphabeta_root_agrees_with_minimax:
  "(minimax b P clk game depth mx st = (Inr r, st1)
      \<and> alphabeta b P clk' game depth NegInf PosInf mx st' = (Inr r', st2) \<longrightarrow> r' = r)
   \<and> ((\<forall>k. TIMER_THRESHOLD P \<le> clk k) \<longrightarrow>
        (\<exists>r st1 st2. minimax b P clk game depth mx st = (Inr r, st1)
           \<and> alphabeta b P clk game depth NegInf PosInf mx st = (Inr r, st2)))"
proof (intro conjI impI)
  assume "minimax b P clk game depth mx st = (Inr r, st1)
      \<and> alphabeta b P clk' game depth NegInf PosInf mx st' = (Inr r', st2)"
  then have "r = minimax_run b P game depth mx"
    and "r' = alphabeta_run b P game depth NegInf PosInf mx"
    by (auto dest: minimax_sound alphabeta_sound)
  then show "r' = r" by (simp add: alphabeta_run_root)
next
  assume a: "\<forall>k. TIMER_THRESHOLD P \<le> clk k"
  obtain st1 where m: "minimax b P clk game depth mx st = (Inr (minimax_run b P game depth mx), st1)"
    using minimax_returns [of P clk b game depth mx st] a by blast
  obtain st2 where "alphabeta b P clk game depth NegInf PosInf mx st
      = (Inr (alphabeta_run b P game depth NegInf PosInf mx), st2)"
    using alphabeta_returns [of P clk b game depth NegInf PosInf mx st] a by blast
  then show "\<exists>r st1 st2. minimax b P clk game depth mx st = (Inr r, st1)
           \<and> alphabeta b P clk game depth NegInf PosInf mx st = (Inr r, st2)"
    using m unfolding alphabeta_run_root by blast
qed

theorem alphabeta_root_agrees_with_minimax_witness:
  "(\<forall>k. TIMER_THRESHOLD (toy_player 2 False ''alphabeta'' 10) \<le> steady 100 k)
   \<and> minimax toy_board (toy_player 2 False ''alphabeta'' 10) (steady 100) toy_game 2 True fresh
       = (Inr (Fin 3, (0, 0)), \<lparr>time_queries = 7, score_calls = 4\<rparr>)
   \<and> alphabeta toy_board (toy_player 2 False ''alphabeta'' 10) (steady 100) toy_game 2
         NegInf PosInf True fresh
       = (Inr (Fin 3, (0, 0)), \<lparr>time_queries = 6, score_calls = 3\<rparr>)"
proof -
  let ?P = "toy_player 2 False ''alphabeta'' 10"
  have m: "minimax toy_board ?P (steady 100) toy_game 2 True fresh
       = (Inr (Fin 3, (0, 0)), \<lparr>time_queries = 7, score_calls = 4\<rparr>)"
    by (simp add: minimax.simps toy_board_def toy_player_def toy_game_def toy_leaf_def
        CustomPlayer_init_def fresh_def query_time_def call_score_def steady_def)
  have a: "\<exists>r'. alphabeta toy_board ?P (steady 100) toy_game 2 NegInf PosInf True fresh
       = (Inr r', \<lparr>time_queries = 6, score_calls = 3\<rparr>)"
    by (simp add: alphabeta.simps toy_board_def toy_player_def toy_game_def toy_leaf_def
        CustomPlayer_init_def fresh_def query_time_def call_score_def steady_def)
  have t: "\<forall>k. TIMER_THRESHOLD ?P \<le> steady 100 k"
    by (simp add: toy_player_def CustomPlayer_init_def steady_def)
  from a obtain r' where a': "alphabeta toy_board ?P (steady 100) toy_game 2 NegInf PosInf True fresh
       = (Inr r', \<lparr>time_queries = 6, score_calls = 3\<rparr>)" ..
  have "r' = (Fin 3, (0, 0))"
    using alphabeta_root_agrees_with_minimax
      [of toy_board ?P "steady 100" toy_game 2 True fresh "(Fin 3, (0, 0))"
          "\<lparr>time_queries = 7, score_calls = 4\<rparr>" "steady 100" fresh r'
          "\<lparr>time_queries = 6, score_calls = 3\<rparr>"] m a'
    by blast
  then show ?thesis using m a' t by simp
qed

section \<open>The heuristic away from terminal states\<close>

text \<open>
  C2, amended.  For every state in which the player has neither lost nor won, on a
  square board (width equal to height), \<open>custom_score\<close> is the number of the player's
  legal moves minus the number of the opponent's, plus the euclidean distance of the
  opponent from the cell \<open>(width div 2, height div 2)\<close> minus the euclidean distance of
  the player from that cell.  When the side of the board is odd that cell is the
  geometric center of the board, and the score is the one the specification words.
\<close>

theorem custom_score_on_square_board:
  assumes "\<not> is_loser b game player" and "\<not> is_winner b game player"
    and "width b game = height b game"
  shows "custom_score b game player
           = Fin (heuristic_about
                   (real_of_int (width b game div 2), real_of_int (height b game div 2))
                   b game player)
       \<and> (odd (width b game) \<longrightarrow>
            custom_score b game player
              = Fin (heuristic_about (board_center (width b game) (height b game))
                      b game player))"
proof -
  have c: "custom_score b game player
           = Fin (heuristic_about
                   (real_of_int (width b game div 2), real_of_int (height b game div 2))
                   b game player)"
    using assms(1,2)
    by (simp add: custom_score_def diff_distance_from_mid_def heuristic_about_def
        euclidean_distance_def cell_def Let_def split: prod.splits)
  have "odd (width b game) \<Longrightarrow>
      (real_of_int (width b game div 2), real_of_int (height b game div 2))
        = board_center (width b game) (height b game)"
    using assms(3) by (simp add: board_center_def odd_half)
  then show ?thesis using c by simp
qed

theorem custom_score_on_square_board_witness:
  "\<not> is_loser grid_board (grid_game 7 (3, 3) (3, 2) False False) True
   \<and> \<not> is_winner grid_board (grid_game 7 (3, 3) (3, 2) False False) True
   \<and> width grid_board (grid_game 7 (3, 3) (3, 2) False False)
       = height grid_board (grid_game 7 (3, 3) (3, 2) False False)
   \<and> odd (width grid_board (grid_game 7 (3, 3) (3, 2) False False))
   \<and> custom_score grid_board (grid_game 7 (3, 3) (3, 2) False False) True
       = Fin (heuristic_about (board_center 7 7) grid_board
               (grid_game 7 (3, 3) (3, 2) False False) True)
   \<and> heuristic_about (board_center 7 7) grid_board
        (grid_game 7 (3, 3) (3, 2) False False) True = 2"
proof -
  let ?G = "grid_game 7 (3, 3) (3, 2) False False"
  have h: "\<not> is_loser grid_board ?G True" "\<not> is_winner grid_board ?G True"
    "width grid_board ?G = height grid_board ?G"
    by (simp_all add: grid_defs)
  have o: "odd (width grid_board ?G)" "width grid_board ?G = 7" "height grid_board ?G = 7"
    by (simp_all add: grid_defs)
  have v: "heuristic_about (board_center 7 7) grid_board ?G True = 2"
    by (simp add: heuristic_about_def board_center_def euclidean_distance_def cell_def grid_defs)
  have k: "custom_score grid_board ?G True
       = Fin (heuristic_about (board_center 7 7) grid_board ?G True)"
    using custom_score_on_square_board [OF h, THEN conjunct2] o by simp
  show ?thesis
    by (intro conjI h o(1) k v)
qed

text \<open>
  On a board of side 4 the cell \<open>(2, 2)\<close> is not the geometric center
  \<open>(1.5, 1.5)\<close>: with the player on \<open>(2, 2)\<close> and the opponent on \<open>(2, 1)\<close> both are
  at the same distance from the center, and the code adds 1 for the opponent's distance
  from \<open>(2, 2)\<close>.
\<close>

theorem custom_score_off_center_on_even_board:
  "\<not> (\<not> is_loser grid_board (grid_game 4 (2, 2) (2, 1) False False) True
       \<and> \<not> is_winner grid_board (grid_game 4 (2, 2) (2, 1) False False) True
       \<longrightarrow> custom_score grid_board (grid_game 4 (2, 2) (2, 1) False False) True
           = Fin (heuristic_about
                   (board_center (width grid_board (grid_game 4 (2, 2) (2, 1) False False))
                                 (height grid_board (grid_game 4 (2, 2) (2, 1) False False)))
                   grid_board (grid_game 4 (2, 2) (2, 1) False False) True))"
  by (simp add: custom_score_def diff_distance_from_mid_def heuristic_about_def board_center_def
      euclidean_distance_def cell_def grid_defs Let_def)

section \<open>The time check\<close>

text \<open>
  C3, amended.  Every call of \<open>minimax\<close> and of \<open>alphabeta\<close>, a call that hits the leaf
  condition included, queries the remaining time first.  It raises \<open>Timeout\<close> at its
  entry, after that one query, exactly when the answer is strictly below the threshold.
  When the answer is the threshold or more the call does not stop there: a leaf returns
  its score and the location of the agent, and a \<open>Timeout\<close> that still comes out of
  the call was raised by a later query.
\<close>

theorem time_check_at_entry:
  "(clk (time_queries st) < TIMER_THRESHOLD P \<longrightarrow>
      minimax b P clk game depth mx st = (Inl Timeout, query_time st)
      \<and> alphabeta b P clk game depth alpha beta mx st = (Inl Timeout, query_time st))
   \<and> (TIMER_THRESHOLD P \<le> clk (time_queries st) \<longrightarrow>
      minimax b P clk game depth mx st \<noteq> (Inl Timeout, query_time st)
      \<and> alphabeta b P clk game depth alpha beta mx st \<noteq> (Inl Timeout, query_time st)
      \<and> (depth < 1 \<or> get_legal_moves b game None = [] \<longrightarrow>
           minimax b P clk game depth mx st
             = (Inr (score_fn P game (ident P), get_player_location b game (ident P)),
                call_score (query_time st))
           \<and> alphabeta b P clk game depth alpha beta mx st
             = (Inr (score_fn P game (ident P), get_player_location b game (ident P)),
                call_score (query_time st))))
   \<and> time_queries st < time_queries (snd (minimax b P clk game depth mx st))
   \<and> time_queries st < time_queries (snd (alphabeta b P clk game depth alpha beta mx st))"
proof (intro conjI impI)
  assume "clk (time_queries st) < TIMER_THRESHOLD P"
  then show "minimax b P clk game depth mx st = (Inl Timeout, query_time st)"
    and "alphabeta b P clk game depth alpha beta mx st = (Inl Timeout, query_time st)"
    by (simp_all add: minimax.simps alphabeta.simps)
next
  assume "TIMER_THRESHOLD P \<le> clk (time_queries st)"
  then show "minimax b P clk game depth mx st \<noteq> (Inl Timeout, query_time st)"
    and "alphabeta b P clk game depth alpha beta mx st \<noteq> (Inl Timeout, query_time st)"
    using minimax_queries [of st b P clk game depth mx]
      alphabeta_queries [of st b P clk game depth alpha beta mx]
    by blast+
next
  assume "TIMER_THRESHOLD P \<le> clk (time_queries st)"
    and "depth < 1 \<or> get_legal_moves b game None = []"
  then show "minimax b P clk game depth mx st
             = (Inr (score_fn P game (ident P), get_player_location b game (ident P)),
                call_score (query_time st))"
    and "alphabeta b P clk game depth alpha beta mx st
             = (Inr (score_fn P game (ident P), get_player_location b game (ident P)),
                call_score (query_time st))"
    by (auto simp: minimax.simps alphabeta.simps)
next
  show "time_queries st < time_queries (snd (minimax b P clk game depth mx st))"
    using minimax_queries [of st b P clk game depth mx] by blast
  show "time_queries st < time_queries (snd (alphabeta b P clk game depth alpha beta mx st))"
    using alphabeta_queries [of st b P clk game depth alpha beta mx] by blast
qed

theorem time_check_at_entry_witness:
  "steady 5 (time_queries fresh) < TIMER_THRESHOLD (toy_player 2 False ''minimax'' 10)
   \<and> minimax toy_board (toy_player 2 False ''minimax'' 10) (steady 5) toy_game 2 True fresh
       = (Inl Timeout, query_time fresh)
   \<and> TIMER_THRESHOLD (toy_player 2 False ''minimax'' 10) \<le> steady 100 (time_queries fresh)
   \<and> alphabeta toy_board (toy_player 2 False ''minimax'' 10) (steady 100) toy_game 2
         NegInf PosInf True fresh
       \<noteq> (Inl Timeout, query_time fresh)
   \<and> minimax toy_board (toy_player 2 False ''minimax'' 10) (steady 100) toy_game 0 True fresh
       = (Inr (Fin 0, (3, 3)), call_score (query_time fresh))"
  using time_check_at_entry
      [of "steady 5" fresh "toy_player 2 False ''minimax'' 10" toy_board toy_game 2 True NegInf PosInf]
    time_check_at_entry
      [of "steady 100" fresh "toy_player 2 False ''minimax'' 10" toy_board toy_game 2 True NegInf PosInf]
    time_check_at_entry
      [of "steady 100" fresh "toy_player 2 False ''minimax'' 10" toy_board toy_game 0 True NegInf PosInf]
  by (simp add: toy_player_def CustomPlayer_init_def toy_board_def toy_game_def steady_def)

text \<open>
  A remaining time equal to the threshold does not exceed it, and the search goes on:
  the comparison of the code is \<open><\<close>.
\<close>

theorem time_equal_to_threshold_not_cancelled:
  "\<not> (steady 10 (time_queries fresh) \<le> TIMER_THRESHOLD (toy_player 2 False ''minimax'' 10)
        \<longrightarrow> fst (minimax toy_board (toy_player 2 False ''minimax'' 10) (steady 10) toy_game 0
                   True fresh)
              = Inl Timeout)
   \<and> \<not> (steady 10 (time_queries fresh) \<le> TIMER_THRESHOLD (toy_player 2 False ''minimax'' 10)
        \<longrightarrow> fst (alphabeta toy_board (toy_player 2 False ''minimax'' 10) (steady 10) toy_game 0
                   NegInf PosInf True fresh)
              = Inl Timeout)"
  by (simp add: minimax.simps alphabeta.simps toy_defs)

section \<open>Cancellation in the driver\<close>



section \<open>The move of a search result\<close>

text \<open>
  C5.  On a state whose active player has no legal move, \<open>minimax\<close> and \<open>alphabeta\<close>
  return the location of the agent, here \<open>(6, 6)\<close>, and not the pair \<open>(-1, -1)\<close> that
  their docstrings announce for that case.
\<close>

theorem search_without_moves_returns_location:
  "get_legal_moves toy_board (toy_leaf 3) None = []
   \<and> minimax toy_board (toy_player 3 False ''minimax'' 10) (steady 100) (toy_leaf 3) 3 True fresh
       = (Inr (Fin 3, (6, 6)), \<lparr>time_queries = 1, score_calls = 1\<rparr>)
   \<and> alphabeta toy_board (toy_player 3 False ''alphabeta'' 10) (steady 100) (toy_leaf 3) 3
         NegInf PosInf True fresh
       = (Inr (Fin 3, (6, 6)), \<lparr>time_queries = 1, score_calls = 1\<rparr>)
   \<and> (6, 6) \<noteq> (- 1, - 1 :: int)"
  by (simp add: minimax.simps alphabeta.simps toy_defs)

section \<open>What minimax selects\<close>

text \<open>
  C6.  On a state with depth at least 1 and a legal move, a call of \<open>minimax\<close> returns
  when the clock never falls below the threshold; and whenever it returns \<open>(s, m)\<close>,
  in the maximizing case \<open>s\<close> is the greatest of the scores that the recursive calls at
  \<open>depth - 1\<close>, with the flag flipped, return for the legal moves, and \<open>m\<close> is the first
  legal move in the order of enumeration whose score is \<open>s\<close>; in the minimizing case
  \<open>s\<close> is the smallest of those scores and \<open>m\<close> the first legal move that has it.
\<close>

theorem minimax_keeps_first_extremum:
  assumes "1 \<le> depth" and "get_legal_moves b game None \<noteq> []"
  shows "((\<forall>k. TIMER_THRESHOLD P \<le> clk k)
            \<longrightarrow> (\<exists>r st'. minimax b P clk game depth mx st = (Inr r, st')))
      \<and> (minimax b P clk game depth mx st = (Inr (s, m), st') \<longrightarrow>
          (mx \<longrightarrow> s = Max ((\<lambda>mv. minimax_score b P (forecast_move b game mv) (depth - 1) False)
                        ` set (get_legal_moves b game None))
               \<and> find (\<lambda>mv. minimax_score b P (forecast_move b game mv) (depth - 1) False = s)
                    (get_legal_moves b game None) = Some m)
          \<and> (\<not> mx \<longrightarrow> s = Min ((\<lambda>mv. minimax_score b P (forecast_move b game mv) (depth - 1) True)
                        ` set (get_legal_moves b game None))
               \<and> find (\<lambda>mv. minimax_score b P (forecast_move b game mv) (depth - 1) True = s)
                    (get_legal_moves b game None) = Some m))"
proof (rule conjI)
  show "(\<forall>k. TIMER_THRESHOLD P \<le> clk k)
            \<longrightarrow> (\<exists>r st'. minimax b P clk game depth mx st = (Inr r, st'))"
    using minimax_returns [of P clk b game depth mx st] by blast
next
  show "minimax b P clk game depth mx st = (Inr (s, m), st') \<longrightarrow>
          (mx \<longrightarrow> s = Max ((\<lambda>mv. minimax_score b P (forecast_move b game mv) (depth - 1) False)
                        ` set (get_legal_moves b game None))
               \<and> find (\<lambda>mv. minimax_score b P (forecast_move b game mv) (depth - 1) False = s)
                    (get_legal_moves b game None) = Some m)
          \<and> (\<not> mx \<longrightarrow> s = Min ((\<lambda>mv. minimax_score b P (forecast_move b game mv) (depth - 1) True)
                        ` set (get_legal_moves b game None))
               \<and> find (\<lambda>mv. minimax_score b P (forecast_move b game mv) (depth - 1) True = s)
                    (get_legal_moves b game None) = Some m)"
    using minimax_extremum [OF _ assms] by (rule impI)
qed

theorem minimax_keeps_first_extremum_witness:
  "(1 :: int) \<le> 2 \<and> get_legal_moves toy_board toy_game None \<noteq> []
   \<and> minimax toy_board (toy_player 2 False ''minimax'' 10) (steady 100) toy_game 2 True fresh
       = (Inr (Fin 3, (0, 0)), \<lparr>time_queries = 7, score_calls = 4\<rparr>)
   \<and> map (\<lambda>mv. minimax_score toy_board (toy_player 2 False ''minimax'' 10)
                 (forecast_move toy_board toy_game mv) (2 - 1) False)
        (get_legal_moves toy_board toy_game None) = [Fin 3, Fin 2]
   \<and> Fin 3 = Max ((\<lambda>mv. minimax_score toy_board (toy_player 2 False ''minimax'' 10)
                           (forecast_move toy_board toy_game mv) (2 - 1) False)
                    ` set (get_legal_moves toy_board toy_game None))
   \<and> find (\<lambda>mv. minimax_score toy_board (toy_player 2 False ''minimax'' 10)
                  (forecast_move toy_board toy_game mv) (2 - 1) False = Fin 3)
        (get_legal_moves toy_board toy_game None) = Some (0, 0)"
proof -
  let ?P = "toy_player 2 False ''minimax'' 10"
  have d: "(1 :: int) \<le> 2" by simp
  have ne: "get_legal_moves toy_board toy_game None \<noteq> []" by (simp add: toy_defs)
  have m: "minimax toy_board ?P (steady 100) toy_game 2 True fresh
       = (Inr (Fin 3, (0, 0)), \<lparr>time_queries = 7, score_calls = 4\<rparr>)"
    by (simp add: minimax.simps toy_defs)
  have c: "map (\<lambda>mv. minimax_score toy_board ?P (forecast_move toy_board toy_game mv) (2 - 1) False)
        (get_legal_moves toy_board toy_game None) = [Fin 3, Fin 2]"
    by (simp add: minimax_score_def unhurried_def minimax.simps toy_defs)
  have k: "Fin 3 = Max ((\<lambda>mv. minimax_score toy_board ?P
                           (forecast_move toy_board toy_game mv) (2 - 1) False)
                    ` set (get_legal_moves toy_board toy_game None))
     \<and> find (\<lambda>mv. minimax_score toy_board ?P
                  (forecast_move toy_board toy_game mv) (2 - 1) False = Fin 3)
        (get_legal_moves toy_board toy_game None) = Some (0, 0)"
    using minimax_keeps_first_extremum [OF d ne, of ?P "steady 100" True fresh "Fin 3" "(0, 0)"
        "\<lparr>time_queries = 7, score_calls = 4\<rparr>"] m
    by blast
  show ?thesis
    by (intro conjI d ne m c k [THEN conjunct1] k [THEN conjunct2])
qed

section \<open>No legal move at the driver\<close>

text \<open>
  C7.  Called with an empty list of legal moves, \<open>get_move\<close> returns \<open>(-1, -1)\<close> at
  once, for every state, every player and every clock: the counters come back
  unchanged, so the remaining time was never queried, the score function was not
  called, and, every search starting with a query of the time, no search was run.
\<close>

theorem get_move_without_moves:
  "get_move b P game [] clk st = Some ((- 1, - 1), st)"
  by (simp add: get_move_def)

section \<open>The heuristic at terminal states\<close>

text \<open>
  C8.  \<open>custom_score\<close> is minus infinity when the state reports that the player has
  lost, and plus infinity when it reports that the player has won (and not lost as
  well: the test for the loser comes first).
\<close>

theorem custom_score_terminal:
  "(is_loser b game player \<longrightarrow> custom_score b game player = NegInf)
   \<and> (is_winner b game player \<and> \<not> is_loser b game player
        \<longrightarrow> custom_score b game player = PosInf)"
  by (simp add: custom_score_def)

theorem custom_score_terminal_witness:
  "is_loser grid_board (grid_game 7 (3, 3) (2, 1) True False) True
   \<and> custom_score grid_board (grid_game 7 (3, 3) (2, 1) True False) True = NegInf
   \<and> is_winner grid_board (grid_game 7 (3, 3) (2, 1) False True) True
   \<and> \<not> is_loser grid_board (grid_game 7 (3, 3) (2, 1) False True) True
   \<and> custom_score grid_board (grid_game 7 (3, 3) (2, 1) False True) True = PosInf"
  using custom_score_terminal [of grid_board "grid_game 7 (3, 3) (2, 1) True False" True]
    custom_score_terminal [of grid_board "grid_game 7 (3, 3) (2, 1) False True" True]
  by (simp add: grid_board_def grid_game_def)

section \<open>An unknown method name\<close>

text \<open>
  C9, amended.  A method name other than \<open>'minimax'\<close> and \<open>'alphabeta'\<close> is not
  rejected when the player is constructed: \<open>CustomPlayer.__init__\<close> stores it as it
  is.  \<open>get_move\<close> does not reject it either: in fixed-depth mode, with a legal move, it
  runs no search, never queries the remaining time, and returns the first legal move.
\<close>

theorem unknown_method_not_rejected:
  "method_name (CustomPlayer_init self depth sf iter meth timeout) = meth
   \<and> (meth \<noteq> ''minimax'' \<and> meth \<noteq> ''alphabeta'' \<and> \<not> iter \<and> legal_moves \<noteq> []
        \<longrightarrow> get_move b (CustomPlayer_init self depth sf iter meth timeout) game legal_moves clk st
            = Some (hd legal_moves, call_score st))"
  by (simp add: CustomPlayer_init_def get_move_def call_method_def Let_def)

theorem unknown_method_not_rejected_witness:
  "method_name (CustomPlayer_init () 3 (\<lambda>g p. toy_value g) False ''negamax'' 10
                  :: (toy, unit) CustomPlayer) = ''negamax''
   \<and> ''negamax'' \<noteq> ''minimax'' \<and> ''negamax'' \<noteq> ''alphabeta'' \<and> \<not> False
   \<and> [(0, 1), (0, 0)] \<noteq> ([] :: move list)
   \<and> get_move toy_board (CustomPlayer_init () 3 (\<lambda>g p. toy_value g) False ''negamax'' 10)
        toy_game [(0, 1), (0, 0)] (steady 100) fresh
      = Some ((0, 1), call_score fresh)"
  using unknown_method_not_rejected [of "()" 3 "\<lambda>g p. toy_value g" False "''negamax''" 10
      "[(0, 1), (0, 0)]" toy_board toy_game "steady 100" fresh]
  by simp

text \<open>
  A player with the method name \<open>'negamax'\<close> is constructed, and in iterative mode its
  \<open>get_move\<close> never returns: the loop has no search to be cancelled in.
\<close>

theorem unknown_method_accepted_then_never_returns:
  "method_name (toy_player 3 True ''negamax'' 10) = ''negamax''
   \<and> get_move toy_board (toy_player 3 True ''negamax'' 10) toy_game [(0, 0), (0, 1)]
        (steady 100) fresh = None"
  by (simp add: get_move_def Let_def iterative_deepening_unknown_method toy_player_def
      CustomPlayer_init_def)

section \<open>A search depth below one\<close>




end
